theory Spec2Isabelle
  imports Main
begin

section \<open>Values, errors and results\<close>

text \<open>
  The module \<^verbatim>\<open>pootle/core/mixins/treeitem.py\<close> keeps aggregated statistics of a
  tree of items in a key-value cache. A node is identified with its object; its
  overridable methods (\<^verbatim>\<open>get_children\<close>, \<^verbatim>\<open>get_parents\<close>, \<^verbatim>\<open>get_cachekey\<close>
  and the raw providers \<^verbatim>\<open>_get_*\<close>) are the fields of an environment. A leading
  underscore of a Python name is written as the prefix \<open>p_\<close>.
\<close>

type_synonym node = nat

text \<open>
  The dictionaries of this module have keys among \<^verbatim>\<open>id\<close>, \<^verbatim>\<open>mtime\<close>,
  \<^verbatim>\<open>creation_time\<close>, \<^verbatim>\<open>snippet\<close>, \<^verbatim>\<open>unit_count\<close> and \<^verbatim>\<open>checks\<close>; a key that
  is absent is \<open>None\<close>.
\<close>

record pydict =
  d_id :: "int option"
  d_mtime :: "int option"
  d_creation_time :: "int option"
  d_snippet :: "string option"
  d_unit_count :: "int option"
  d_checks :: "(string \<rightharpoonup> int) option"

definition empty_dict :: pydict where
  "empty_dict = \<lparr>d_id = None, d_mtime = None, d_creation_time = None,
     d_snippet = None, d_unit_count = None, d_checks = None\<rparr>"

text \<open>A cached value: an integer count, a \<^verbatim>\<open>datetime\<close> (as its position on the
  time line) or a dictionary.\<close>

datatype pyvalue = IntV int | TimeV int | DictV pydict

datatype error = NotImplementedError | TypeError | KeyError

text \<open>\<open>Timeout\<close> is a run that did not finish within its fuel; \<open>Raised\<close> is a
  Python exception leaving the call.\<close>

datatype 'a result = Timeout | Raised error | Returned 'a

fun bindR :: "'a result \<Rightarrow> ('a \<Rightarrow> 'b result) \<Rightarrow> 'b result" where
  "bindR Timeout g = Timeout"
| "bindR (Raised x) g = Raised x"
| "bindR (Returned a) g = g a"

section \<open>Environment and state\<close>

record env =
  get_children :: "node \<Rightarrow> node list"
  get_parents :: "node \<Rightarrow> node list"
  get_cachekey :: "node \<Rightarrow> string option"
  p_get_total_wordcount :: "node \<Rightarrow> int"
  p_get_translated_wordcount :: "node \<Rightarrow> int"
  p_get_fuzzy_wordcount :: "node \<Rightarrow> int"
  p_get_suggestion_count :: "node \<Rightarrow> int"
  p_get_checks :: "node \<Rightarrow> pydict"
  p_get_last_action :: "node \<Rightarrow> pydict"
  p_get_mtime :: "node \<Rightarrow> int"
  p_get_last_updated :: "node \<Rightarrow> pydict"
  iri_to_uri :: "string \<Rightarrow> string"

text \<open>The fields \<^verbatim>\<open>__init__\<close> gives a \<^verbatim>\<open>TreeItem\<close>.\<close>

record treeitem =
  children :: "node list option"
  initialized :: bool
  flagged_for_deletion :: "string set"

definition init_treeitem :: treeitem where
  "init_treeitem = \<lparr>children = None, initialized = False, flagged_for_deletion = {}\<rparr>"

text \<open>
  The state: Django's cache, the in-memory fields of every node, and a counter of the
  invocations of each node's \<^verbatim>\<open>get_children()\<close> (bookkeeping only, read by no
  operation).
\<close>

record state =
  cache :: "string \<rightharpoonup> pyvalue"
  items :: "node \<Rightarrow> treeitem"
  get_children_calls :: "node \<Rightarrow> nat"

text \<open>Class \<^verbatim>\<open>CachedMethods\<close>; \<^verbatim>\<open>get_all\<close> lists the values in the order of
  \<^verbatim>\<open>dir\<close>, that is of the attribute names.\<close>

definition CHECKS :: string where "CHECKS = ''get_checks''"
definition TOTAL :: string where "TOTAL = ''get_total_wordcount''"
definition TRANSLATED :: string where "TRANSLATED = ''get_translated_wordcount''"
definition FUZZY :: string where "FUZZY = ''get_fuzzy_wordcount''"
definition LAST_ACTION :: string where "LAST_ACTION = ''get_last_action''"
definition SUGGESTIONS :: string where "SUGGESTIONS = ''get_suggestion_count''"
definition MTIME :: string where "MTIME = ''get_mtime''"
definition LAST_UPDATED :: string where "LAST_UPDATED = ''get_last_updated''"

definition get_all :: "string list" where
  "get_all = [CHECKS, FUZZY, LAST_ACTION, LAST_UPDATED, MTIME, SUGGESTIONS, TOTAL,
     TRANSLATED]"

section \<open>Cache helpers of \<^verbatim>\<open>pootle_misc.util\<close>\<close>

text \<open>The key of a node's entry for a method name, as \<^verbatim>\<open>_clear_cache\<close> builds it:
  \<^verbatim>\<open>iri_to_uri(itemkey + ":" + key)\<close>.\<close>

definition make_key :: "env \<Rightarrow> string \<Rightarrow> string \<Rightarrow> string" where
  "make_key e itemkey key = iri_to_uri e (itemkey @ '':'' @ key)"

text \<open>Modelled from the spec: \<^verbatim>\<open>get_cached_value\<close> of \<^verbatim>\<open>pootle_misc.util\<close> is
  not in the source; it reads the entry keyed by the node's cache key and the
  statistic's name (\<open>None\<close> when absent).\<close>

definition get_cached_value :: "env \<Rightarrow> node \<Rightarrow> string \<Rightarrow> state \<Rightarrow> pyvalue option result" where
  "get_cached_value e n name s =
     (case get_cachekey e n of
        None \<Rightarrow> Raised NotImplementedError
      | Some itemkey \<Rightarrow> Returned (cache s (make_key e itemkey name)))"

text \<open>Modelled from the spec: \<^verbatim>\<open>set_cached_value\<close> of \<^verbatim>\<open>pootle_misc.util\<close> is
  not in the source; it writes the entry keyed by the node's cache key and the
  statistic's name.\<close>

definition set_cached_value :: "env \<Rightarrow> node \<Rightarrow> string \<Rightarrow> pyvalue \<Rightarrow> state \<Rightarrow> state result" where
  "set_cached_value e n name v s =
     (case get_cachekey e n of
        None \<Rightarrow> Raised NotImplementedError
      | Some itemkey \<Rightarrow> Returned (s\<lparr>cache := (cache s)(make_key e itemkey name \<mapsto> v)\<rparr>))"

text \<open>Modelled from the spec: the decorator \<^verbatim>\<open>getfromcache\<close> of
  \<^verbatim>\<open>pootle_misc.util\<close> is not in the source; if the cache has an entry for the
  node and the statistic it returns it, otherwise it runs the method, stores the result
  and returns it.\<close>

definition getfromcache ::
  "env \<Rightarrow> string \<Rightarrow> node \<Rightarrow> (state \<Rightarrow> (pyvalue \<times> state) result) \<Rightarrow> state \<Rightarrow> (pyvalue \<times> state) result" where
  "getfromcache e name n method s =
     (case get_cachekey e n of
        None \<Rightarrow> Raised NotImplementedError
      | Some itemkey \<Rightarrow>
          (case cache s (make_key e itemkey name) of
             Some v \<Rightarrow> Returned (v, s)
           | None \<Rightarrow>
               bindR (method s)
                 (\<lambda>(v, s'). Returned (v, s'\<lparr>cache := (cache s')(make_key e itemkey name \<mapsto> v)\<rparr>))))"

text \<open>Modelled from the spec: \<^verbatim>\<open>dictsum\<close> of \<^verbatim>\<open>pootle_misc.util\<close> is not in the
  source; it is the key-wise sum of two mappings, a key missing from one side counting
  as 0.\<close>

definition dictsum :: "(string \<rightharpoonup> int) \<Rightarrow> (string \<rightharpoonup> int) \<Rightarrow> (string \<rightharpoonup> int)" where
  "dictsum x y =
     (\<lambda>k. case (x k, y k) of
            (None, None) \<Rightarrow> None
          | (Some a, None) \<Rightarrow> Some (a + 0)
          | (None, Some b) \<Rightarrow> Some (0 + b)
          | (Some a, Some b) \<Rightarrow> Some (a + b))"

section \<open>The child loader and the invalidation propagator\<close>

text \<open>\<^verbatim>\<open>initialize_children\<close>: the first call stores \<^verbatim>\<open>get_children()\<close> and sets
  \<^verbatim>\<open>initialized\<close>.\<close>

definition initialize_children :: "env \<Rightarrow> node \<Rightarrow> state \<Rightarrow> state" where
  "initialize_children e n s =
     (if \<not> initialized (items s n)
      then s\<lparr>items := (items s)(n := (items s n)\<lparr>children := Some (get_children e n),
                                                 initialized := True\<rparr>),
             get_children_calls := (get_children_calls s)(n := Suc (get_children_calls s n))\<rparr>
      else s)"

text \<open>A \<^verbatim>\<open>for\<close> loop whose body changes the state; an exception or a timeout of
  the body leaves the loop.\<close>

fun for_each :: "('a \<Rightarrow> state \<Rightarrow> state result) \<Rightarrow> 'a list \<Rightarrow> state \<Rightarrow> state result" where
  "for_each body [] s = Returned s"
| "for_each body (x # xs) s = bindR (body x s) (for_each body xs)"

text \<open>A list comprehension whose element expression changes the state.\<close>

fun collect :: "('a \<Rightarrow> state \<Rightarrow> ('b \<times> state) result) \<Rightarrow> 'a list \<Rightarrow> state \<Rightarrow> ('b list \<times> state) result" where
  "collect g [] s = Returned ([], s)"
| "collect g (x # xs) s =
     bindR (g x s) (\<lambda>(v, s1). bindR (collect g xs s1) (\<lambda>(vs, s2). Returned (v # vs, s2)))"

text \<open>\<^verbatim>\<open>self.children\<close> as the iterable of a loop: \<^verbatim>\<open>None\<close> is not iterable.\<close>

definition self_children :: "node \<Rightarrow> state \<Rightarrow> node list result" where
  "self_children n s = (case children (items s n) of None \<Rightarrow> Raised TypeError | Some cs \<Rightarrow> Returned cs)"

definition flag_for_deletion :: "node \<Rightarrow> string list \<Rightarrow> state \<Rightarrow> state" where
  "flag_for_deletion n args s =
     s\<lparr>items := (items s)(n := (items s n)\<lparr>flagged_for_deletion :=
                                 flagged_for_deletion (items s n) \<union> set args\<rparr>)\<rparr>"

text \<open>The first loop of \<^verbatim>\<open>_clear_cache\<close>: \<^verbatim>\<open>cache.delete\<close> of the entry of every
  key of the set (the order of the deletions does not matter).\<close>

definition delete_keys :: "env \<Rightarrow> string \<Rightarrow> string set \<Rightarrow> (string \<rightharpoonup> pyvalue) \<Rightarrow> (string \<rightharpoonup> pyvalue)" where
  "delete_keys e itemkey keys c = (\<lambda>k. if k \<in> make_key e itemkey ` keys then None else c k)"

text \<open>\<^verbatim>\<open>_clear_cache\<close>. Inside the loop over the parents the argument
  \<^verbatim>\<open>parents=parents\<close> is the list of parents itself, true when not empty. The
  logging is left out.\<close>

fun p_clear_cache :: "env \<Rightarrow> nat \<Rightarrow> node \<Rightarrow> string set \<Rightarrow> bool \<Rightarrow> bool \<Rightarrow> state \<Rightarrow> state result" where
  "p_clear_cache e 0 n keys parents chn s = Timeout"
| "p_clear_cache e (Suc fuel) n keys parents chn s =
     (case get_cachekey e n of
        None \<Rightarrow> Raised NotImplementedError
      | Some itemkey \<Rightarrow>
          bindR (if parents
                 then for_each (\<lambda>p. p_clear_cache e fuel p keys (get_parents e n \<noteq> []) False)
                        (get_parents e n) (s\<lparr>cache := delete_keys e itemkey keys (cache s)\<rparr>)
                 else Returned (s\<lparr>cache := delete_keys e itemkey keys (cache s)\<rparr>))
            (\<lambda>s1. if chn
                   then bindR (self_children n (initialize_children e n s1))
                          (\<lambda>cs. for_each (\<lambda>item. p_clear_cache e fuel item keys False True) cs
                                   (initialize_children e n s1))
                   else Returned s1))"

definition clear_flagged_cache :: "env \<Rightarrow> nat \<Rightarrow> node \<Rightarrow> bool \<Rightarrow> bool \<Rightarrow> state \<Rightarrow> state result" where
  "clear_flagged_cache e fuel n parents chn s =
     bindR (p_clear_cache e fuel n (flagged_for_deletion (items s n)) parents chn s)
       (\<lambda>s1. Returned (s1\<lparr>items := (items s1)(n := (items s1 n)\<lparr>flagged_for_deletion := {}\<rparr>)\<rparr>))"

definition clear_all_cache :: "env \<Rightarrow> nat \<Rightarrow> node \<Rightarrow> bool \<Rightarrow> bool \<Rightarrow> state \<Rightarrow> state result" where
  "clear_all_cache e fuel n chn parents s =
     clear_flagged_cache e fuel n parents chn (flag_for_deletion n get_all s)"

section \<open>\<^verbatim>\<open>set_last_action\<close>\<close>

text \<open>The test \<^verbatim>\<open>pla and pla['mtime'] < last_action['mtime']\<close>: \<^verbatim>\<open>None\<close>, 0 and
  the empty dictionary are false; a true value that is no dictionary cannot be
  subscripted; a dictionary without \<^verbatim>\<open>mtime\<close> raises \<^verbatim>\<open>KeyError\<close>.\<close>

fun parent_is_older :: "pyvalue option \<Rightarrow> pydict \<Rightarrow> bool result" where
  "parent_is_older None la = Returned False"
| "parent_is_older (Some (IntV i)) la = (if i = 0 then Returned False else Raised TypeError)"
| "parent_is_older (Some (TimeV t)) la = Raised TypeError"
| "parent_is_older (Some (DictV d)) la =
     (if d = empty_dict then Returned False
      else case d_mtime d of
             None \<Rightarrow> Raised KeyError
           | Some pm \<Rightarrow> (case d_mtime la of None \<Rightarrow> Raised KeyError | Some m \<Rightarrow> Returned (pm < m)))"

fun set_last_action :: "env \<Rightarrow> nat \<Rightarrow> node \<Rightarrow> pydict \<Rightarrow> state \<Rightarrow> state result" where
  "set_last_action e 0 n last_action s = Timeout"
| "set_last_action e (Suc fuel) n last_action s =
     bindR (set_cached_value e n LAST_ACTION (DictV last_action) s)
       (for_each (\<lambda>p s1.
            bindR (get_cached_value e p LAST_ACTION s1)
              (\<lambda>pla. bindR (parent_is_older pla last_action)
                 (\<lambda>older. if older then set_last_action e fuel p last_action s1
                           else Returned s1)))
          (get_parents e n))"

section \<open>The stat aggregator\<close>

text \<open>The eight cached methods; \<^verbatim>\<open>_sum\<close> reaches a child's method through its name
  (\<^verbatim>\<open>getattr(item, name)()\<close>).\<close>

datatype cached_method =
  Checks | Total | Translated | Fuzzy | LastAction | Suggestions | Mtime | LastUpdated

fun method_name :: "cached_method \<Rightarrow> string" where
  "method_name Checks = CHECKS"
| "method_name Total = TOTAL"
| "method_name Translated = TRANSLATED"
| "method_name Fuzzy = FUZZY"
| "method_name LastAction = LAST_ACTION"
| "method_name Suggestions = SUGGESTIONS"
| "method_name Mtime = MTIME"
| "method_name LastUpdated = LAST_UPDATED"

type_synonym getter = "node \<Rightarrow> state \<Rightarrow> (pyvalue \<times> state) result"

text \<open>Python's \<^verbatim>\<open>sum\<close> starts from 0; adding a \<^verbatim>\<open>datetime\<close> or a dictionary to
  an integer raises \<^verbatim>\<open>TypeError\<close>.\<close>

fun py_sum :: "int \<Rightarrow> pyvalue list \<Rightarrow> int result" where
  "py_sum acc [] = Returned acc"
| "py_sum acc (IntV i # vs) = py_sum (acc + i) vs"
| "py_sum acc (v # vs) = Raised TypeError"

text \<open>\<^verbatim>\<open>_sum(name)\<close>, with the children's method \<open>g\<close>.\<close>

definition p_sum :: "getter \<Rightarrow> node \<Rightarrow> state \<Rightarrow> (int \<times> state) result" where
  "p_sum g n s =
     bindR (self_children n s)
       (\<lambda>cs. bindR (collect g cs s)
          (\<lambda>(vs, s1). bindR (py_sum 0 vs) (\<lambda>t. Returned (t, s1))))"

text \<open>The body shared by \<^verbatim>\<open>get_total_wordcount\<close>, \<^verbatim>\<open>get_translated_wordcount\<close>,
  \<^verbatim>\<open>get_fuzzy_wordcount\<close> and \<^verbatim>\<open>get_suggestion_count\<close>: the node's own raw count
  plus \<^verbatim>\<open>_sum\<close>.\<close>

definition count_body :: "env \<Rightarrow> (node \<Rightarrow> int) \<Rightarrow> getter \<Rightarrow> node \<Rightarrow> state \<Rightarrow> (pyvalue \<times> state) result" where
  "count_body e raw g n s =
     bindR (p_sum g n (initialize_children e n s))
       (\<lambda>(t, s1). Returned (IntV (raw n + t), s1))"

text \<open>Python's \<^verbatim>\<open>max(items, key=...)\<close>: the key of every item is taken in turn,
  and a later item replaces the best one only when its key is strictly greater.\<close>

fun max_loop :: "(pyvalue \<Rightarrow> int result) \<Rightarrow> pyvalue \<Rightarrow> int \<Rightarrow> pyvalue list \<Rightarrow> pyvalue result" where
  "max_loop key best bestval [] = Returned best"
| "max_loop key best bestval (x # xs) =
     bindR (key x)
       (\<lambda>v. if v > bestval then max_loop key x v xs else max_loop key best bestval xs)"

fun py_max :: "(pyvalue \<Rightarrow> int result) \<Rightarrow> pyvalue \<Rightarrow> pyvalue list \<Rightarrow> pyvalue result" where
  "py_max key x xs = bindR (key x) (\<lambda>v. max_loop key x v xs)"

text \<open>\<^verbatim>\<open>lambda x: x['mtime'] if 'mtime' in x else 0\<close>; \<^verbatim>\<open>in\<close> needs an
  iterable.\<close>

fun mtime_key :: "pyvalue \<Rightarrow> int result" where
  "mtime_key (DictV d) = (case d_mtime d of Some m \<Rightarrow> Returned m | None \<Rightarrow> Returned 0)"
| "mtime_key v = Raised TypeError"

text \<open>\<^verbatim>\<open>lambda x: x['creation_time'] if 'creation_time' in x else 0\<close>.\<close>

fun creation_time_key :: "pyvalue \<Rightarrow> int result" where
  "creation_time_key (DictV d) =
     (case d_creation_time d of Some m \<Rightarrow> Returned m | None \<Rightarrow> Returned 0)"
| "creation_time_key v = Raised TypeError"

text \<open>\<^verbatim>\<open>get_mtime\<close> takes \<^verbatim>\<open>max\<close> without a key: the first item is the node's own
  \<^verbatim>\<open>datetime\<close>, and a \<^verbatim>\<open>datetime\<close> compares with a \<^verbatim>\<open>datetime\<close> only.\<close>

fun datetime_key :: "pyvalue \<Rightarrow> int result" where
  "datetime_key (TimeV t) = Returned t"
| "datetime_key v = Raised TypeError"

text \<open>The body shared by \<^verbatim>\<open>get_last_action\<close>, \<^verbatim>\<open>get_mtime\<close> and
  \<^verbatim>\<open>get_last_updated\<close>: \<^verbatim>\<open>max\<close> of the node's own raw value followed by the
  children's values.\<close>

definition max_body ::
  "env \<Rightarrow> (pyvalue \<Rightarrow> int result) \<Rightarrow> pyvalue \<Rightarrow> getter \<Rightarrow> node \<Rightarrow> state \<Rightarrow> (pyvalue \<times> state) result" where
  "max_body e key own g n s =
     bindR (self_children n (initialize_children e n s))
       (\<lambda>cs. bindR (collect g cs (initialize_children e n s))
          (\<lambda>(vs, s1). bindR (py_max key own vs) (\<lambda>v. Returned (v, s1))))"

text \<open>The two statements of the loop of \<^verbatim>\<open>get_checks\<close>:
  \<^verbatim>\<open>result['checks'] = dictsum(result['checks'], item_res['checks'])\<close> and
  \<^verbatim>\<open>result['unit_count'] += item_res['unit_count']\<close>.\<close>

definition add_checks :: "pydict \<Rightarrow> pyvalue \<Rightarrow> pydict result" where
  "add_checks result item_res =
     (case d_checks result of
        None \<Rightarrow> Raised KeyError
      | Some rc \<Rightarrow>
         (case item_res of
            DictV d \<Rightarrow>
              (case d_checks d of
                 None \<Rightarrow> Raised KeyError
               | Some ic \<Rightarrow>
                  (case d_unit_count result of
                     None \<Rightarrow> Raised KeyError
                   | Some ru \<Rightarrow>
                      (case d_unit_count d of
                         None \<Rightarrow> Raised KeyError
                       | Some iu \<Rightarrow>
                           Returned (result\<lparr>d_checks := Some (dictsum rc ic),
                                            d_unit_count := Some (ru + iu)\<rparr>))))
          | IntV i \<Rightarrow> Raised TypeError
          | TimeV t \<Rightarrow> Raised TypeError))"

fun checks_loop :: "getter \<Rightarrow> pydict \<Rightarrow> node list \<Rightarrow> state \<Rightarrow> (pydict \<times> state) result" where
  "checks_loop g result [] s = Returned (result, s)"
| "checks_loop g result (item # rest) s =
     bindR (g item s)
       (\<lambda>(item_res, s1). bindR (add_checks result item_res)
          (\<lambda>result1. checks_loop g result1 rest s1))"

definition checks_body :: "env \<Rightarrow> getter \<Rightarrow> node \<Rightarrow> state \<Rightarrow> (pyvalue \<times> state) result" where
  "checks_body e g n s =
     bindR (self_children n (initialize_children e n s))
       (\<lambda>cs. bindR (checks_loop g (p_get_checks e n) cs (initialize_children e n s))
          (\<lambda>(result, s1). Returned (DictV result, s1)))"

text \<open>The undecorated body of each cached method, given the same method of the
  children.\<close>

fun method_body :: "env \<Rightarrow> cached_method \<Rightarrow> getter \<Rightarrow> node \<Rightarrow> state \<Rightarrow> (pyvalue \<times> state) result" where
  "method_body e Total g n s = count_body e (p_get_total_wordcount e) g n s"
| "method_body e Translated g n s = count_body e (p_get_translated_wordcount e) g n s"
| "method_body e Fuzzy g n s = count_body e (p_get_fuzzy_wordcount e) g n s"
| "method_body e Suggestions g n s = count_body e (p_get_suggestion_count e) g n s"
| "method_body e LastAction g n s = max_body e mtime_key (DictV (p_get_last_action e n)) g n s"
| "method_body e Mtime g n s = max_body e datetime_key (TimeV (p_get_mtime e n)) g n s"
| "method_body e LastUpdated g n s =
     max_body e creation_time_key (DictV (p_get_last_updated e n)) g n s"
| "method_body e Checks g n s = checks_body e g n s"

text \<open>A cached method: the body under \<^verbatim>\<open>@getfromcache\<close> (\<^verbatim>\<open>@statslog\<close> only
  logs). The fuel bounds the depth of the descent into the children.\<close>

fun cached_stat :: "env \<Rightarrow> nat \<Rightarrow> cached_method \<Rightarrow> node \<Rightarrow> state \<Rightarrow> (pyvalue \<times> state) result" where
  "cached_stat e 0 m n s = Timeout"
| "cached_stat e (Suc fuel) m n s =
     getfromcache e (method_name m) n (method_body e m (\<lambda>item. cached_stat e fuel m item) n) s"

definition get_total_wordcount :: "env \<Rightarrow> nat \<Rightarrow> getter" where
  "get_total_wordcount e fuel = cached_stat e fuel Total"

definition get_translated_wordcount :: "env \<Rightarrow> nat \<Rightarrow> getter" where
  "get_translated_wordcount e fuel = cached_stat e fuel Translated"

definition get_fuzzy_wordcount :: "env \<Rightarrow> nat \<Rightarrow> getter" where
  "get_fuzzy_wordcount e fuel = cached_stat e fuel Fuzzy"

definition get_suggestion_count :: "env \<Rightarrow> nat \<Rightarrow> getter" where
  "get_suggestion_count e fuel = cached_stat e fuel Suggestions"

definition get_last_action :: "env \<Rightarrow> nat \<Rightarrow> getter" where
  "get_last_action e fuel = cached_stat e fuel LastAction"

definition get_mtime :: "env \<Rightarrow> nat \<Rightarrow> getter" where
  "get_mtime e fuel = cached_stat e fuel Mtime"

definition get_last_updated :: "env \<Rightarrow> nat \<Rightarrow> getter" where
  "get_last_updated e fuel = cached_stat e fuel LastUpdated"

definition get_checks :: "env \<Rightarrow> nat \<Rightarrow> getter" where
  "get_checks e fuel = cached_stat e fuel Checks"

text \<open>The eight reads that end \<^verbatim>\<open>refresh_stats\<close>; their values are discarded.\<close>

definition discard :: "(pyvalue \<times> state) result \<Rightarrow> state result" where
  "discard r = bindR r (\<lambda>(v, s). Returned s)"

definition read_stats :: "env \<Rightarrow> nat \<Rightarrow> node \<Rightarrow> state \<Rightarrow> state result" where
  "read_stats e fuel n s1 =
     bindR (discard (get_total_wordcount e fuel n s1))
       (\<lambda>s2. bindR (discard (get_translated_wordcount e fuel n s2))
       (\<lambda>s3. bindR (discard (get_fuzzy_wordcount e fuel n s3))
       (\<lambda>s4. bindR (discard (get_suggestion_count e fuel n s4))
       (\<lambda>s5. bindR (discard (get_last_action e fuel n s5))
       (\<lambda>s6. bindR (discard (get_checks e fuel n s6))
       (\<lambda>s7. bindR (discard (get_mtime e fuel n s7))
       (\<lambda>s8. discard (get_last_updated e fuel n s8))))))))"

text \<open>\<^verbatim>\<open>refresh_stats\<close>. The \<^verbatim>\<open>else\<close> of the \<^verbatim>\<open>for\<close> loop runs when the loop
  ends without \<^verbatim>\<open>break\<close>, and the loop has none; \<^verbatim>\<open>item.refresh_stats()\<close> takes
  the default \<^verbatim>\<open>include_children=True\<close>.\<close>

fun refresh_stats :: "env \<Rightarrow> nat \<Rightarrow> node \<Rightarrow> bool \<Rightarrow> state \<Rightarrow> state result" where
  "refresh_stats e 0 n include_children s = Timeout"
| "refresh_stats e (Suc fuel) n include_children s =
     bindR (if include_children
            then bindR (self_children n (initialize_children e n s))
                   (\<lambda>cs. bindR (for_each (\<lambda>item. refresh_stats e fuel item True) cs
                                   (initialize_children e n s))
                            (clear_all_cache e (Suc fuel) n False True))
            else Returned (initialize_children e n s))
       (read_stats e (Suc fuel) n)"

section \<open>Assumptions on the environment and the state\<close>

text \<open>Every node type supplies \<^verbatim>\<open>get_cachekey\<close>.\<close>

definition has_cachekeys :: "env \<Rightarrow> bool" where
  "has_cachekeys e = (\<forall>n. get_cachekey e n \<noteq> None)"

text \<open>The parent edges are acyclic: a rank decreases along them.\<close>

definition parents_ranked :: "env \<Rightarrow> (node \<Rightarrow> nat) \<Rightarrow> bool" where
  "parents_ranked e up = (\<forall>n. \<forall>p \<in> set (get_parents e n). up p < up n)"

text \<open>The child edges are acyclic.\<close>

definition children_ranked :: "env \<Rightarrow> (node \<Rightarrow> nat) \<Rightarrow> bool" where
  "children_ranked e down = (\<forall>n. \<forall>c \<in> set (get_children e n). down c < down n)"

text \<open>The memoized child list of an initialized node is the one \<^verbatim>\<open>get_children\<close>
  gave.\<close>

definition memo_ok :: "env \<Rightarrow> state \<Rightarrow> bool" where
  "memo_ok e s = (\<forall>n. initialized (items s n) \<longrightarrow> children (items s n) = Some (get_children e n))"

section \<open>The parent relation and an example tree\<close>

text \<open>\<open>(p, c)\<close> is in the relation when \<open>p\<close> is among the parents of \<open>c\<close>.\<close>

definition parent_rel :: "env \<Rightarrow> (node \<times> node) set" where
  "parent_rel e = {(p, c). p \<in> set (get_parents e c)}"

text \<open>A chain of three nodes: 0 (A) is the parent of 1 (B), which is the parent of
  2 (C); the raw values other than the total word count are those of the base class.
  The nodes from 3 on are isolated, with cache keys of their own.\<close>

definition chain_env :: env where
  "chain_env = \<lparr>
     get_children = (\<lambda>n. if n = 0 then [1] else if n = 1 then [2] else []),
     get_parents = (\<lambda>n. if n = 2 then [1] else if n = 1 then [0] else []),
     get_cachekey = (\<lambda>n. Some (if n = 0 then ''A'' else if n = 1 then ''B'' else if n = 2 then ''C''
                          else replicate n (CHR ''D''))),
     p_get_total_wordcount = (\<lambda>n. if n = 0 then 1 else if n = 1 then 10 else 100),
     p_get_translated_wordcount = (\<lambda>n. 0),
     p_get_fuzzy_wordcount = (\<lambda>n. 0),
     p_get_suggestion_count = (\<lambda>n. 0),
     p_get_checks = (\<lambda>n. empty_dict\<lparr>d_unit_count := Some 0, d_checks := Some Map.empty\<rparr>),
     p_get_last_action = (\<lambda>n. empty_dict\<lparr>d_id := Some 0, d_mtime := Some 0, d_snippet := Some []\<rparr>),
     p_get_mtime = (\<lambda>n. 0),
     p_get_last_updated = (\<lambda>n. empty_dict\<lparr>d_id := Some 0, d_creation_time := Some 0, d_snippet := Some []\<rparr>),
     iri_to_uri = (\<lambda>k. k)\<rparr>"

text \<open>The state with an empty cache and nodes as \<^verbatim>\<open>__init__\<close> leaves them, and one with
  the three totals of the chain cached.\<close>

definition init_state :: state where
  "init_state = \<lparr>cache = Map.empty, items = (\<lambda>n. init_treeitem), get_children_calls = (\<lambda>n. 0)\<rparr>"

definition warm_state :: state where
  "warm_state = init_state\<lparr>cache :=
     [''A:get_total_wordcount'' \<mapsto> IntV 111, ''B:get_total_wordcount'' \<mapsto> IntV 110,
      ''C:get_total_wordcount'' \<mapsto> IntV 100]\<rparr>"

text \<open>A state of the chain with a wrong total word count cached for node 1.\<close>

definition stale_state :: state where
  "stale_state = init_state\<lparr>cache := [''B:get_total_wordcount'' \<mapsto> IntV 999]\<rparr>"

text \<open>The test of \<^verbatim>\<open>set_last_action\<close> against the action raises for none of the
  cached values.\<close>

definition entries_comparable :: "pydict \<Rightarrow> state \<Rightarrow> bool" where
  "entries_comparable a s = (\<forall>k. parent_is_older (cache s k) a \<in> {Returned True, Returned False})"

text \<open>Three actions, and a state of the chain with cached last actions.\<close>

definition new_action :: pydict where
  "new_action = empty_dict\<lparr>d_id := Some 7, d_mtime := Some 50, d_snippet := Some ''edit''\<rparr>"

definition later_action :: pydict where
  "later_action = empty_dict\<lparr>d_id := Some 8, d_mtime := Some 90, d_snippet := Some ''later''\<rparr>"

definition earlier_action :: pydict where
  "earlier_action = empty_dict\<lparr>d_id := Some 3, d_mtime := Some 20, d_snippet := Some ''early''\<rparr>"

definition action_state :: state where
  "action_state = init_state\<lparr>cache :=
     [''A:get_last_action'' \<mapsto> DictV later_action, ''B:get_last_action'' \<mapsto> DictV earlier_action,
      ''C:get_last_action'' \<mapsto> DictV later_action]\<rparr>"

text \<open>A state of the chain where only node 1 has its total word count cached.\<close>

definition sum_state :: state where
  "sum_state = init_state\<lparr>cache := [''B:get_total_wordcount'' \<mapsto> IntV 110]\<rparr>"

section \<open>Definitions for the laws of the aggregator\<close>

text \<open>The statements of the loop of \<^verbatim>\<open>get_checks\<close> over the values of the children.\<close>

fun add_all :: "pydict \<Rightarrow> pyvalue list \<Rightarrow> pydict result" where
  "add_all result [] = Returned result"
| "add_all result (v # vs) = bindR (add_checks result v) (\<lambda>result1. add_all result1 vs)"

text \<open>The key-wise sum as the specification words it: a key of the result is a key of
  one of the mappings, and its count is the sum of the counts, a mapping without the key
  counting as 0.\<close>

definition keywise_sum :: "(string \<rightharpoonup> int) list \<Rightarrow> (string \<rightharpoonup> int)" where
  "keywise_sum ms =
     (\<lambda>k. if \<forall>m \<in> set ms. m k = None then None
          else Some (sum_list (map (\<lambda>m. case m k of None \<Rightarrow> 0 | Some c \<Rightarrow> c) ms)))"

text \<open>The chain with the quality checks of the specification's example on nodes 1 and
  2.\<close>

definition checks_env :: env where
  "checks_env = chain_env\<lparr>p_get_checks := (\<lambda>n.
     if n = 1 then empty_dict\<lparr>d_unit_count := Some 2, d_checks := Some [''critical'' \<mapsto> 1]\<rparr>
     else empty_dict\<lparr>d_unit_count := Some 3, d_checks := Some [''critical'' \<mapsto> 2, ''warning'' \<mapsto> 1]\<rparr>)\<rparr>"

text \<open>The key of \<^verbatim>\<open>get_last_action\<close> on a dictionary.\<close>

definition action_key :: "pydict \<Rightarrow> int" where
  "action_key d = (case d_mtime d of Some m \<Rightarrow> m | None \<Rightarrow> 0)"

text \<open>\<open>r\<close> is the first element of \<open>xs\<close> with the greatest key.\<close>

definition is_first_max :: "('a \<Rightarrow> int) \<Rightarrow> 'a \<Rightarrow> 'a list \<Rightarrow> bool" where
  "is_first_max key r xs =
     (\<exists>before after. xs = before @ r # after
        \<and> (\<forall>x \<in> set before. key x < key r) \<and> (\<forall>x \<in> set after. key x \<le> key r))"

text \<open>The value a call returns, without the state.\<close>

definition value_of :: "('a \<times> state) result \<Rightarrow> 'a result" where
  "value_of r = bindR r (\<lambda>(v, s). Returned v)"

text \<open>Node 0 with the children 1 and 2 and the last actions of the specification's
  example; and the chain where node 1 has a negative \<^verbatim>\<open>mtime\<close> and node 2 none.\<close>

definition action_at :: "int \<Rightarrow> int \<Rightarrow> pydict" where
  "action_at i m = empty_dict\<lparr>d_id := Some i, d_mtime := Some m, d_snippet := Some ''edit''\<rparr>"

definition max_env :: env where
  "max_env = chain_env\<lparr>
     get_children := (\<lambda>n. if n = 0 then [1, 2] else []),
     get_parents := (\<lambda>n. if n = 1 \<or> n = 2 then [0] else []),
     p_get_last_action := (\<lambda>n. if n = 0 then action_at 0 5 else if n = 1 then action_at 1 3
                                else action_at 2 9)\<rparr>"

definition undated_env :: env where
  "undated_env = chain_env\<lparr>
     p_get_last_action := (\<lambda>n. if n = 1 then action_at 1 (- 5)
                                else empty_dict\<lparr>d_id := Some 2, d_snippet := Some ''none''\<rparr>)\<rparr>"

section \<open>Recomputation from scratch and coherence of the cache\<close>














section \<open>Loops, the child loader and the invalidation propagator: lemmas\<close>

lemma initialize_children_twice:
  "initialize_children e n (initialize_children e n s) = initialize_children e n s"
  by (simp add: initialize_children_def)

lemma initialize_children_funpow:
  "0 < k \<Longrightarrow> ((initialize_children e n) ^^ k) s = initialize_children e n s"
proof (induction k)
  case 0
  then show ?case by simp
next
  case (Suc k)
  show ?case
  proof (cases k)
    case 0
    then show ?thesis by simp
  next
    case (Suc j)
    with Suc.IH have "((initialize_children e n) ^^ k) s = initialize_children e n s" by simp
    then show ?thesis by (simp add: initialize_children_twice)
  qed
qed

lemma cache_initialize_children [simp]: "cache (initialize_children e n s) = cache s"
  by (simp add: initialize_children_def)

lemma delete_keys_empty [simp]: "delete_keys e k {} c = c"
  by (simp add: delete_keys_def)

lemma for_each_invariant:
  assumes "for_each body xs s = Returned s'"
    and "P s"
    and "\<And>x t t'. x \<in> set xs \<Longrightarrow> P t \<Longrightarrow> body x t = Returned t' \<Longrightarrow> P t'"
  shows "P s'"
  using assms
proof (induction xs arbitrary: s)
  case Nil
  then show ?case by simp
next
  case (Cons x xs)
  from Cons.prems(1) obtain t where t: "body x s = Returned t" and r: "for_each body xs t = Returned s'"
    by (cases "body x s") auto
  have "P t" using Cons.prems(3)[of x s t] Cons.prems(2) t by simp
  show ?case
  proof (rule Cons.IH[OF r \<open>P t\<close>])
    fix y u u' assume "y \<in> set xs" "P u" "body y u = Returned u'"
    then show "P u'" using Cons.prems(3)[of y u u'] by simp
  qed
qed

lemma for_each_cache_same:
  assumes "\<And>x t t'. x \<in> set xs \<Longrightarrow> body x t = Returned t' \<Longrightarrow> cache t' = cache t"
    and "for_each body xs s = Returned s'"
  shows "cache s' = cache s"
  using assms(2) by (rule for_each_invariant[where P = "\<lambda>t. cache t = cache s"]) (simp_all add: assms(1))

lemma p_clear_cache_empty:
  "p_clear_cache e fuel n {} parents chn s = Returned s' \<Longrightarrow> cache s' = cache s"
proof (induction fuel arbitrary: n parents chn s s')
  case 0
  then show ?case by simp
next
  case (Suc fuel)
  from Suc.prems obtain itemkey where ik: "get_cachekey e n = Some itemkey"
    by (cases "get_cachekey e n") auto
  let ?up = "if parents
             then for_each (\<lambda>p. p_clear_cache e fuel p {} (get_parents e n \<noteq> []) False) (get_parents e n) s
             else Returned s"
  from Suc.prems ik obtain s1 where s1: "?up = Returned s1"
    by (cases ?up) (auto split: if_splits)
  have c1: "cache s1 = cache s"
  proof (cases parents)
    case True
    with s1 have "for_each (\<lambda>p. p_clear_cache e fuel p {} (get_parents e n \<noteq> []) False) (get_parents e n) s = Returned s1"
      by simp
    then show ?thesis using Suc.IH by (rule for_each_cache_same[rotated]) 
  next
    case False
    with s1 show ?thesis by simp
  qed
  show ?case
  proof (cases chn)
    case False
    with Suc.prems ik s1 have "s' = s1" by (auto split: if_splits)
    with c1 show ?thesis by simp
  next
    case True
    with Suc.prems ik s1 obtain cs where
      cs: "self_children n (initialize_children e n s1) = Returned cs"
      and r: "for_each (\<lambda>item. p_clear_cache e fuel item {} False True) cs (initialize_children e n s1) = Returned s'"
      by (cases "self_children n (initialize_children e n s1)") (auto split: if_splits)
    have "cache s' = cache (initialize_children e n s1)"
      using r Suc.IH by (rule for_each_cache_same[rotated])
    with c1 show ?thesis by simp
  qed
qed

lemma memo_ok_initialize_children [simp]: "memo_ok e s \<Longrightarrow> memo_ok e (initialize_children e n s)"
  by (simp add: memo_ok_def initialize_children_def)

lemma self_children_initialize:
  "memo_ok e s \<Longrightarrow> self_children n (initialize_children e n s) = Returned (get_children e n)"
  by (simp add: memo_ok_def initialize_children_def self_children_def)

lemma memo_ok_cache_update [simp]: "memo_ok e (s\<lparr>cache := c\<rparr>) = memo_ok e s"
  by (simp add: memo_ok_def)

lemma for_each_total:
  assumes "P s"
    and "\<And>x t. x \<in> set xs \<Longrightarrow> P t \<Longrightarrow> \<exists>t'. body x t = Returned t' \<and> P t'"
  shows "\<exists>s'. for_each body xs s = Returned s' \<and> P s'"
  using assms
proof (induction xs arbitrary: s)
  case Nil
  then show ?case by simp
next
  case (Cons x xs)
  from Cons.prems(2)[of x s] Cons.prems(1) obtain t where t: "body x s = Returned t" "P t"
    by auto
  have "\<exists>s'. for_each body xs t = Returned s' \<and> P s'"
  proof (rule Cons.IH[OF \<open>P t\<close>])
    fix y u assume "y \<in> set xs" "P u"
    then show "\<exists>t'. body y u = Returned t' \<and> P t'" using Cons.prems(2)[of y u] by simp
  qed
  with t show ?case by simp
qed

lemma p_clear_cache_total:
  assumes "has_cachekeys e"
  shows "(parents \<longrightarrow> parents_ranked e up \<and> up n < fuel) \<Longrightarrow>
         (chn \<longrightarrow> children_ranked e down \<and> memo_ok e s \<and> down n < fuel) \<Longrightarrow> 0 < fuel \<Longrightarrow>
         \<exists>s'. p_clear_cache e fuel n keys parents chn s = Returned s' \<and> (memo_ok e s \<longrightarrow> memo_ok e s')"
proof (induction fuel arbitrary: n parents chn s)
  case 0
  then show ?case by simp
next
  case (Suc fuel)
  from assms(1) obtain itemkey where ik: "get_cachekey e n = Some itemkey"
    by (auto simp: has_cachekeys_def)
  let ?s0 = "s\<lparr>cache := delete_keys e itemkey keys (cache s)\<rparr>"
  let ?body = "\<lambda>p. p_clear_cache e fuel p keys (get_parents e n \<noteq> []) False"
  let ?up = "if parents then for_each ?body (get_parents e n) ?s0 else Returned ?s0"
  let ?P = "\<lambda>t. memo_ok e s \<longrightarrow> memo_ok e t"
  have m0: "?P ?s0" by simp
  have "\<exists>s1. ?up = Returned s1 \<and> ?P s1"
  proof (cases parents)
    case False
    with m0 show ?thesis by simp
  next
    case True
    have "\<exists>s1. for_each ?body (get_parents e n) ?s0 = Returned s1 \<and> ?P s1"
    proof (rule for_each_total[where P = ?P, OF m0])
      fix p t assume p: "p \<in> set (get_parents e n)" and t: "?P t"
      from p Suc.prems(1) True have "up p < up n" by (auto simp: parents_ranked_def)
      with Suc.prems(1) True have "up p < fuel" "0 < fuel" by auto
      with Suc.prems(1) True
      have "\<exists>t'. p_clear_cache e fuel p keys (get_parents e n \<noteq> []) False t = Returned t'
                 \<and> (memo_ok e t \<longrightarrow> memo_ok e t')"
        by (intro Suc.IH) auto
      with t show "\<exists>t'. ?body p t = Returned t' \<and> ?P t'" by auto
    qed
    with True show ?thesis by simp
  qed
  then obtain s1 where s1: "?up = Returned s1" and m1: "?P s1" by blast
  show ?case
  proof (cases chn)
    case False
    with ik s1 m1 show ?thesis by simp
  next
    case True
    with Suc.prems(2) m1 have m1': "memo_ok e s1" by simp
    have sc: "self_children n (initialize_children e n s1) = Returned (get_children e n)"
      using m1' by (rule self_children_initialize)
    have "\<exists>s'. for_each (\<lambda>item. p_clear_cache e fuel item keys False True) (get_children e n)
                  (initialize_children e n s1) = Returned s' \<and> memo_ok e s'"
    proof (rule for_each_total[where P = "memo_ok e"])
      show "memo_ok e (initialize_children e n s1)" using m1' by simp
    next
      fix c t assume c: "c \<in> set (get_children e n)" and t: "memo_ok e t"
      from c Suc.prems(2) True have "down c < down n" by (auto simp: children_ranked_def)
      with Suc.prems(2) True have "down c < fuel" "0 < fuel" by auto
      with Suc.prems(2) True t
      have "\<exists>t'. p_clear_cache e fuel c keys False True t = Returned t' \<and> (memo_ok e t \<longrightarrow> memo_ok e t')"
        by (intro Suc.IH) auto
      with t show "\<exists>t'. p_clear_cache e fuel c keys False True t = Returned t' \<and> memo_ok e t'" by auto
    qed
    then obtain s' where "for_each (\<lambda>item. p_clear_cache e fuel item keys False True) (get_children e n)
                  (initialize_children e n s1) = Returned s'" "memo_ok e s'" by blast
    with True ik s1 sc show ?thesis by simp
  qed
qed

lemma for_each_establish:
  assumes "for_each body xs s = Returned s'"
    and "x \<in> set xs"
    and "\<And>t t'. body x t = Returned t' \<Longrightarrow> Q t'"
    and "\<And>y t t'. y \<in> set xs \<Longrightarrow> Q t \<Longrightarrow> body y t = Returned t' \<Longrightarrow> Q t'"
  shows "Q s'"
  using assms
proof (induction xs arbitrary: s)
  case Nil
  then show ?case by simp
next
  case (Cons y ys)
  from Cons.prems(1) obtain t where t: "body y s = Returned t" and r: "for_each body ys t = Returned s'"
    by (cases "body y s") auto
  show ?case
  proof (cases "x = y")
    case True
    with t Cons.prems(3) have "Q t" by simp
    with r show ?thesis
    proof (rule for_each_invariant)
      fix z u u' assume "z \<in> set ys" "Q u" "body z u = Returned u'"
      then show "Q u'" using Cons.prems(4)[of z u u'] by simp
    qed
  next
    case False
    with Cons.prems(2) have "x \<in> set ys" by simp
    with r show ?thesis
    proof (rule Cons.IH)
      fix u u' assume "body x u = Returned u'"
      then show "Q u'" by (rule Cons.prems(3))
    next
      fix z u u' assume "z \<in> set ys" "Q u" "body z u = Returned u'"
      then show "Q u'" using Cons.prems(4)[of z u u'] by simp
    qed
  qed
qed

lemma p_clear_cache_dom:
  "p_clear_cache e fuel n keys parents chn s = Returned s' \<Longrightarrow> dom (cache s') \<subseteq> dom (cache s)"
proof (induction fuel arbitrary: n parents chn s s')
  case 0
  then show ?case by simp
next
  case (Suc fuel)
  from Suc.prems obtain itemkey where ik: "get_cachekey e n = Some itemkey"
    by (cases "get_cachekey e n") auto
  let ?s0 = "s\<lparr>cache := delete_keys e itemkey keys (cache s)\<rparr>"
  let ?up = "if parents
             then for_each (\<lambda>p. p_clear_cache e fuel p keys (get_parents e n \<noteq> []) False) (get_parents e n) ?s0
             else Returned ?s0"
  have d0: "dom (cache ?s0) \<subseteq> dom (cache s)"
    by (auto simp: delete_keys_def split: if_splits)
  from Suc.prems ik obtain s1 where s1: "?up = Returned s1"
    by (cases ?up) (auto split: if_splits)
  have d1: "dom (cache s1) \<subseteq> dom (cache s)"
  proof (cases parents)
    case True
    with s1 have "for_each (\<lambda>p. p_clear_cache e fuel p keys (get_parents e n \<noteq> []) False) (get_parents e n) ?s0 = Returned s1"
      by simp
    then show ?thesis
    proof (rule for_each_invariant[where P = "\<lambda>t. dom (cache t) \<subseteq> dom (cache s)"])
      show "dom (cache ?s0) \<subseteq> dom (cache s)" by (rule d0)
    next
      fix p t t' assume "dom (cache t) \<subseteq> dom (cache s)"
        and "p_clear_cache e fuel p keys (get_parents e n \<noteq> []) False t = Returned t'"
      then show "dom (cache t') \<subseteq> dom (cache s)" using Suc.IH by blast
    qed
  next
    case False
    with s1 d0 show ?thesis by auto
  qed
  show ?case
  proof (cases chn)
    case False
    with Suc.prems ik s1 have "s' = s1" by (auto split: if_splits)
    with d1 show ?thesis by simp
  next
    case True
    with Suc.prems ik s1 obtain cs where
      r: "for_each (\<lambda>item. p_clear_cache e fuel item keys False True) cs (initialize_children e n s1) = Returned s'"
      by (cases "self_children n (initialize_children e n s1)") (auto split: if_splits)
    then show ?thesis
    proof (rule for_each_invariant[where P = "\<lambda>t. dom (cache t) \<subseteq> dom (cache s)"])
      show "dom (cache (initialize_children e n s1)) \<subseteq> dom (cache s)" using d1 by simp
    next
      fix c t t' assume "dom (cache t) \<subseteq> dom (cache s)"
        and "p_clear_cache e fuel c keys False True t = Returned t'"
      then show "dom (cache t') \<subseteq> dom (cache s)" using Suc.IH by blast
    qed
  qed
qed

lemma p_clear_cache_absent:
  assumes "p_clear_cache e fuel n keys parents chn s = Returned s'" and "cache s k = None"
  shows "cache s' k = None"
  using p_clear_cache_dom[OF assms(1)] assms(2) by (auto simp: dom_def)

lemma p_clear_cache_ancestors:
  "p_clear_cache e fuel n keys True chn s = Returned s' \<Longrightarrow> (a, n) \<in> (parent_rel e)\<^sup>* \<Longrightarrow>
   get_cachekey e a = Some ka \<Longrightarrow> k \<in> keys \<Longrightarrow> cache s' (make_key e ka k) = None"
proof (induction fuel arbitrary: n chn s s')
  case 0
  then show ?case by simp
next
  case (Suc fuel)
  from Suc.prems(1) obtain itemkey where ik: "get_cachekey e n = Some itemkey"
    by (cases "get_cachekey e n") auto
  let ?s0 = "s\<lparr>cache := delete_keys e itemkey keys (cache s)\<rparr>"
  let ?body = "\<lambda>p. p_clear_cache e fuel p keys (get_parents e n \<noteq> []) False"
  let ?Q = "\<lambda>t. cache t (make_key e ka k) = None"
  from Suc.prems(1) ik obtain s1 where s1: "for_each ?body (get_parents e n) ?s0 = Returned s1"
    by (cases "for_each ?body (get_parents e n) ?s0") auto
  have q1: "?Q s1"
  proof (cases "a = n")
    case True
    with ik Suc.prems(3,4) have "?Q ?s0" by (simp add: delete_keys_def)
    with s1 show ?thesis
      by (rule for_each_invariant) (rule p_clear_cache_absent)
  next
    case False
    with Suc.prems(2) obtain p where ap: "(a, p) \<in> (parent_rel e)\<^sup>*" and pn: "(p, n) \<in> parent_rel e"
      by (auto elim: rtranclE)
    from pn have pin: "p \<in> set (get_parents e n)" by (simp add: parent_rel_def)
    then have ne: "get_parents e n \<noteq> []" by auto
    from s1 pin show ?thesis
    proof (rule for_each_establish[where Q = ?Q])
      fix t t' assume "?body p t = Returned t'"
      with ne have "p_clear_cache e fuel p keys True False t = Returned t'" by simp
      then show "?Q t'" using ap Suc.prems(3,4) by (rule Suc.IH)
    next
      fix y t t' assume "?Q t" "?body y t = Returned t'"
      then show "?Q t'" using p_clear_cache_absent by blast
    qed
  qed
  show ?case
  proof (cases chn)
    case False
    with Suc.prems(1) ik s1 have "s' = s1" by auto
    with q1 show ?thesis by simp
  next
    case True
    with Suc.prems(1) ik s1 obtain cs where
      r: "for_each (\<lambda>item. p_clear_cache e fuel item keys False True) cs (initialize_children e n s1) = Returned s'"
      by (cases "self_children n (initialize_children e n s1)") auto
    from r show ?thesis
    proof (rule for_each_invariant[where P = ?Q])
      show "?Q (initialize_children e n s1)" using q1 by simp
    next
      fix c t t' assume "?Q t" "p_clear_cache e fuel c keys False True t = Returned t'"
      then show "?Q t'" using p_clear_cache_absent by blast
    qed
  qed
qed

lemma chain_env_simps [simp]:
  "get_children chain_env = (\<lambda>n. if n = 0 then [1] else if n = 1 then [2] else [])"
  "get_parents chain_env = (\<lambda>n. if n = 2 then [1] else if n = 1 then [0] else [])"
  "get_cachekey chain_env = (\<lambda>n. Some (if n = 0 then ''A'' else if n = 1 then ''B'' else if n = 2 then ''C''
                          else replicate n (CHR ''D'')))"
  "iri_to_uri chain_env = (\<lambda>k. k)"
  by (simp_all add: chain_env_def)

lemma p_clear_cache_own:
  assumes "p_clear_cache e fuel n keys parents chn s = Returned s'"
    and "get_cachekey e n = Some ik" and "k \<in> keys"
  shows "cache s' (make_key e ik k) = None"
proof -
  from assms(1) obtain f where f: "fuel = Suc f" by (cases fuel) auto
  let ?Q = "\<lambda>t. cache t (make_key e ik k) = None"
  let ?s0 = "s\<lparr>cache := delete_keys e ik keys (cache s)\<rparr>"
  let ?up = "if parents
             then for_each (\<lambda>p. p_clear_cache e f p keys (get_parents e n \<noteq> []) False) (get_parents e n) ?s0
             else Returned ?s0"
  have q0: "?Q ?s0" using assms(3) by (simp add: delete_keys_def)
  from assms(1,2) f obtain s1 where s1: "?up = Returned s1"
    by (cases ?up) (auto split: if_splits)
  have q1: "?Q s1"
  proof (cases parents)
    case True
    with s1 have "for_each (\<lambda>p. p_clear_cache e f p keys (get_parents e n \<noteq> []) False) (get_parents e n) ?s0 = Returned s1"
      by simp
    then show ?thesis using q0
      by (rule for_each_invariant) (rule p_clear_cache_absent)
  next
    case False
    with s1 q0 show ?thesis by auto
  qed
  show ?thesis
  proof (cases chn)
    case False
    with assms(1,2) f s1 have "s' = s1" by (auto split: if_splits)
    with q1 show ?thesis by simp
  next
    case True
    with assms(1,2) f s1 obtain cs where
      r: "for_each (\<lambda>item. p_clear_cache e f item keys False True) cs (initialize_children e n s1) = Returned s'"
      by (cases "self_children n (initialize_children e n s1)") (auto split: if_splits)
    from r show ?thesis
    proof (rule for_each_invariant[where P = ?Q])
      show "?Q (initialize_children e n s1)" using q1 by simp
    next
      fix c t t' assume "?Q t" "p_clear_cache e f c keys False True t = Returned t'"
      then show "?Q t'" using p_clear_cache_absent by blast
    qed
  qed
qed

lemma clear_all_cache_own_entries:
  assumes "clear_all_cache e fuel n chn parents s = Returned u"
  shows "(\<forall>name \<in> set get_all. get_cached_value e n name u = Returned None)
       \<and> flagged_for_deletion (items u n) = {}"
proof -
  let ?s = "flag_for_deletion n get_all s"
  let ?keys = "flagged_for_deletion (items ?s n)"
  from assms obtain s1 where s1: "p_clear_cache e fuel n ?keys parents chn ?s = Returned s1"
    and u: "u = s1\<lparr>items := (items s1)(n := (items s1 n)\<lparr>flagged_for_deletion := {}\<rparr>)\<rparr>"
    by (cases "p_clear_cache e fuel n ?keys parents chn ?s")
       (auto simp: clear_all_cache_def clear_flagged_cache_def)
  from s1 obtain ik where ik: "get_cachekey e n = Some ik"
    by (cases fuel; cases "get_cachekey e n") auto
  have "cache s1 (make_key e ik name) = None" if "name \<in> set get_all" for name
  proof -
    from that have "name \<in> ?keys" by (simp add: flag_for_deletion_def)
    with s1 ik show ?thesis by (rule p_clear_cache_own)
  qed
  with u ik show ?thesis by (simp add: get_cached_value_def)
qed

lemma chain_raw [simp]:
  "p_get_total_wordcount chain_env = (\<lambda>n. if n = 0 then 1 else if n = 1 then 10 else 100)"
  "p_get_translated_wordcount chain_env = (\<lambda>n. 0)"
  "p_get_fuzzy_wordcount chain_env = (\<lambda>n. 0)"
  "p_get_suggestion_count chain_env = (\<lambda>n. 0)"
  "p_get_checks chain_env = (\<lambda>n. empty_dict\<lparr>d_unit_count := Some 0, d_checks := Some Map.empty\<rparr>)"
  "p_get_last_action chain_env = (\<lambda>n. empty_dict\<lparr>d_id := Some 0, d_mtime := Some 0, d_snippet := Some []\<rparr>)"
  "p_get_mtime chain_env = (\<lambda>n. 0)"
  "p_get_last_updated chain_env = (\<lambda>n. empty_dict\<lparr>d_id := Some 0, d_creation_time := Some 0, d_snippet := Some []\<rparr>)"
  by (simp_all add: chain_env_def)

lemmas eval_defs = get_total_wordcount_def get_translated_wordcount_def get_fuzzy_wordcount_def
  get_suggestion_count_def get_last_action_def get_checks_def get_mtime_def get_last_updated_def
  getfromcache_def make_key_def count_body_def max_body_def checks_body_def add_checks_def
  p_sum_def self_children_def initialize_children_def init_treeitem_def init_state_def
  read_stats_def discard_def clear_all_cache_def clear_flagged_cache_def flag_for_deletion_def
  delete_keys_def get_all_def get_cached_value_def set_cached_value_def
  CHECKS_def TOTAL_def TRANSLATED_def FUZZY_def LAST_ACTION_def SUGGESTIONS_def MTIME_def LAST_UPDATED_def

lemma run_B: "\<exists>s'. refresh_stats chain_env 4 1 True stale_state = Returned s'
   \<and> get_cached_value chain_env 1 TOTAL s' = Returned (Some (IntV 110))"
  by (simp add: eval_nat_numeral stale_state_def eval_defs)

lemma parent_is_older_self: "parent_is_older (Some (DictV a)) a \<noteq> Returned True"
  by (simp split: option.splits)


lemma bindR_Returned:
  "bindR r g = Returned y \<longleftrightarrow> (\<exists>x. r = Returned x \<and> g x = Returned y)"
  by (cases r) auto

lemma for_each_append:
  "for_each body (ys @ zs) s = bindR (for_each body ys s) (for_each body zs)"
proof (induction ys arbitrary: s)
  case Nil
  then show ?case by simp
next
  case (Cons y ys)
  then show ?case by (cases "body y s") simp_all
qed

lemma for_each_establish_inv:
  assumes "for_each body xs s = Returned s'"
    and "P s"
    and "\<And>y t t'. y \<in> set xs \<Longrightarrow> P t \<Longrightarrow> body y t = Returned t' \<Longrightarrow> P t'"
    and "x \<in> set xs"
    and "\<And>t t'. P t \<Longrightarrow> body x t = Returned t' \<Longrightarrow> Q t'"
    and "\<And>y t t'. y \<in> set xs \<Longrightarrow> P t \<Longrightarrow> Q t \<Longrightarrow> body y t = Returned t' \<Longrightarrow> Q t'"
  shows "Q s'"
proof -
  from assms(4) obtain ys zs where xs: "xs = ys @ x # zs" by (auto dest: split_list)
  from assms(1) xs obtain t1 t2 where t1: "for_each body ys s = Returned t1"
    and t2: "body x t1 = Returned t2" and r: "for_each body zs t2 = Returned s'"
    by (auto simp: for_each_append bindR_Returned)
  from t1 assms(2) have p1: "P t1"
  proof (rule for_each_invariant)
    fix y u u' assume "y \<in> set ys" "P u" "body y u = Returned u'"
    then show "P u'" using assms(3)[of y u u'] xs by simp
  qed
  with t2 have p2: "P t2" and q2: "Q t2" using assms(3)[of x t1 t2] assms(4) assms(5)[of t1 t2] by auto
  from r have "P s' \<and> Q s'"
  proof (rule for_each_invariant[where P = "\<lambda>u. P u \<and> Q u"])
    show "P t2 \<and> Q t2" using p2 q2 by simp
  next
    fix y u u' assume "y \<in> set zs" "P u \<and> Q u" "body y u = Returned u'"
    then show "P u' \<and> Q u'" using assms(3)[of y u u'] assms(6)[of y u u'] xs by auto
  qed
  then show ?thesis by simp
qed

lemma set_last_action_changes:
  "set_last_action e fuel n a s = Returned s' \<Longrightarrow>
   \<exists>ik. get_cachekey e n = Some ik
     \<and> (\<forall>k. cache s' k = ((cache s)(make_key e ik LAST_ACTION \<mapsto> DictV a)) k
            \<or> (cache s' k = Some (DictV a)
                \<and> parent_is_older (((cache s)(make_key e ik LAST_ACTION \<mapsto> DictV a)) k) a = Returned True))
     \<and> items s' = items s \<and> get_children_calls s' = get_children_calls s"
proof (induction fuel arbitrary: n s s')
  case 0
  then show ?case by simp
next
  case (Suc fuel)
  from Suc.prems obtain ik where ik: "get_cachekey e n = Some ik"
    by (cases "get_cachekey e n") (auto simp: set_cached_value_def)
  let ?c1 = "(cache s)(make_key e ik LAST_ACTION \<mapsto> DictV a)"
  let ?s1 = "s\<lparr>cache := ?c1\<rparr>"
  let ?body = "\<lambda>p s1. bindR (get_cached_value e p LAST_ACTION s1)
              (\<lambda>pla. bindR (parent_is_older pla a)
                 (\<lambda>older. if older then set_last_action e fuel p a s1 else Returned s1))"
  let ?J = "\<lambda>u. (\<forall>k. cache u k = ?c1 k \<or> (cache u k = Some (DictV a) \<and> parent_is_older (?c1 k) a = Returned True))
              \<and> items u = items s \<and> get_children_calls u = get_children_calls s"
  from Suc.prems ik have r: "for_each ?body (get_parents e n) ?s1 = Returned s'"
    by (simp add: set_cached_value_def)
  from r have "?J s'"
  proof (rule for_each_invariant[where P = ?J])
    show "?J ?s1" by simp
  next
    fix p u u' assume ju: "?J u" and b: "?body p u = Returned u'"
    from b obtain kp where kp: "get_cachekey e p = Some kp"
      by (cases "get_cachekey e p") (auto simp: get_cached_value_def)
    let ?pla = "cache u (make_key e kp LAST_ACTION)"
    from b kp obtain older where o: "parent_is_older ?pla a = Returned older"
      and u': "(if older then set_last_action e fuel p a u else Returned u) = Returned u'"
      by (auto simp: get_cached_value_def bindR_Returned)
    show "?J u'"
    proof (cases older)
      case False
      with u' ju show ?thesis by simp
    next
      case True
      with u' have "set_last_action e fuel p a u = Returned u'" by simp
      from Suc.IH[OF this] kp
      have ch: "\<forall>k. cache u' k = ((cache u)(make_key e kp LAST_ACTION \<mapsto> DictV a)) k
            \<or> (cache u' k = Some (DictV a)
                \<and> parent_is_older (((cache u)(make_key e kp LAST_ACTION \<mapsto> DictV a)) k) a = Returned True)"
        and fr: "items u' = items u" "get_children_calls u' = get_children_calls u" by auto
      have "cache u' k = ?c1 k \<or> (cache u' k = Some (DictV a) \<and> parent_is_older (?c1 k) a = Returned True)" for k
      proof (cases "k = make_key e kp LAST_ACTION")
        case True
        from ch have "cache u' k = ((cache u)(make_key e kp LAST_ACTION \<mapsto> DictV a)) k
            \<or> cache u' k = Some (DictV a)" by blast
        with True have 1: "cache u' k = Some (DictV a)" by auto
        from ju have "cache u k = ?c1 k \<or> (cache u k = Some (DictV a) \<and> parent_is_older (?c1 k) a = Returned True)"
          by blast
        moreover from o \<open>older\<close> True have "parent_is_older (cache u k) a = Returned True" by simp
        ultimately have "parent_is_older (?c1 k) a = Returned True" by auto
        with 1 show ?thesis by simp
      next
        case False
        from ju have j: "cache u k = ?c1 k \<or> (cache u k = Some (DictV a) \<and> parent_is_older (?c1 k) a = Returned True)"
          by blast
        from ch False have "cache u' k = cache u k
            \<or> (cache u' k = Some (DictV a) \<and> parent_is_older (cache u k) a = Returned True)"
          by (metis fun_upd_other)
        with j show ?thesis using parent_is_older_self[of a] by auto
      qed
      with ju fr show ?thesis by simp
    qed
  qed
  with ik show ?case by simp
qed

lemma set_last_action_entry:
  assumes "set_last_action e fuel n a s = Returned s'" and "get_cachekey e n = Some ik"
  shows "cache s' k = Some (DictV a) \<or> (k \<noteq> make_key e ik LAST_ACTION \<and> cache s' k = cache s k)"
proof -
  from set_last_action_changes[OF assms(1)] obtain ik' where "get_cachekey e n = Some ik'"
    and ch: "\<And>k. cache s' k = ((cache s)(make_key e ik' LAST_ACTION \<mapsto> DictV a)) k
            \<or> cache s' k = Some (DictV a)"
    by blast
  with assms(2) have "cache s' k = ((cache s)(make_key e ik LAST_ACTION \<mapsto> DictV a)) k
            \<or> cache s' k = Some (DictV a)" by auto
  then show ?thesis by (cases "k = make_key e ik LAST_ACTION") auto
qed

lemma set_last_action_total:
  assumes "has_cachekeys e" and "parents_ranked e up" and "d_mtime a \<noteq> None"
  shows "up n < fuel \<Longrightarrow> entries_comparable a s \<Longrightarrow>
         \<exists>s'. set_last_action e fuel n a s = Returned s' \<and> entries_comparable a s'"
proof (induction fuel arbitrary: n s)
  case 0
  then show ?case by simp
next
  case (Suc fuel)
  from assms(1) obtain ik where ik: "get_cachekey e n = Some ik"
    by (auto simp: has_cachekeys_def)
  from assms(3) have self: "parent_is_older (Some (DictV a)) a = Returned False"
    by (auto simp: empty_dict_def)
  let ?s1 = "s\<lparr>cache := (cache s)(make_key e ik LAST_ACTION \<mapsto> DictV a)\<rparr>"
  let ?body = "\<lambda>p s1. bindR (get_cached_value e p LAST_ACTION s1)
              (\<lambda>pla. bindR (parent_is_older pla a)
                 (\<lambda>older. if older then set_last_action e fuel p a s1 else Returned s1))"
  have c1: "entries_comparable a ?s1"
    using Suc.prems(2) self by (simp add: entries_comparable_def)
  have "\<exists>s'. for_each ?body (get_parents e n) ?s1 = Returned s' \<and> entries_comparable a s'"
  proof (rule for_each_total[where P = "entries_comparable a", OF c1])
    fix p t assume p: "p \<in> set (get_parents e n)" and t: "entries_comparable a t"
    from assms(1) obtain kp where kp: "get_cachekey e p = Some kp"
      by (auto simp: has_cachekeys_def)
    from p assms(2) have "up p < up n" unfolding parents_ranked_def by blast
    with Suc.prems(1) have up: "up p < fuel" by simp
    from t obtain b where b: "parent_is_older (cache t (make_key e kp LAST_ACTION)) a = Returned b"
      unfolding entries_comparable_def by (metis insertE singletonD)
    show "\<exists>t'. ?body p t = Returned t' \<and> entries_comparable a t'"
    proof (cases b)
      case True
      from Suc.IH[OF up t] obtain t' where "set_last_action e fuel p a t = Returned t'"
        "entries_comparable a t'" by blast
      with kp b True show ?thesis by (simp add: get_cached_value_def)
    next
      case False
      with kp b t show ?thesis by (simp add: get_cached_value_def)
    qed
  qed
  with ik show ?case by (simp add: set_cached_value_def)
qed

lemmas action_defs = new_action_def later_action_def earlier_action_def action_state_def empty_dict_def

lemma py_sum_ints: "py_sum acc (map IntV xs) = Returned (acc + sum_list xs)"
  by (induction xs arbitrary: acc) (simp_all add: add.assoc)

lemma returned_first:
  "(case r of Returned (v, s1) \<Rightarrow> v = x | Raised err \<Rightarrow> False | Timeout \<Rightarrow> False)
   \<Longrightarrow> \<exists>s1. r = Returned (x, s1)"
  by (cases r) auto

lemma bindR_assoc: "bindR (bindR r g) h = bindR r (\<lambda>x. bindR (g x) h)"
  by (cases r) simp_all

lemma collect_Cons_Returned:
  "collect g (c # cs) s = Returned (vs, s1) \<longleftrightarrow>
     (\<exists>v t vs'. g c s = Returned (v, t) \<and> collect g cs t = Returned (vs', s1) \<and> vs = v # vs')"
  by (cases "g c s") (auto simp: bindR_Returned)

lemma checks_loop_collect:
  "collect g cs s = Returned (vs, s1) \<Longrightarrow>
   checks_loop g r cs s = bindR (add_all r vs) (\<lambda>r'. Returned (r', s1))"
proof (induction cs arbitrary: r s vs)
  case Nil
  then show ?case by simp
next
  case (Cons c cs)
  from Cons.prems[unfolded collect_Cons_Returned]
  obtain v t vs' where v: "g c s = Returned (v, t)"
    and r: "collect g cs t = Returned (vs', s1)" and vs: "vs = v # vs'"
    by blast
  show ?case using v vs Cons.IH[OF r] by (simp add: bindR_assoc)
qed

lemma keywise_sum_single: "keywise_sum [m] = m"
  by (auto simp: keywise_sum_def fun_eq_iff split: option.splits)

lemma keywise_sum_dictsum: "keywise_sum (dictsum a b # ms) = keywise_sum (a # b # ms)"
  by (auto simp: keywise_sum_def dictsum_def fun_eq_iff split: option.splits)

lemma add_all_checks:
  assumes "map d_unit_count ds = map Some us" and "map d_checks ds = map Some cs"
    and "d_unit_count r = Some u" and "d_checks r = Some ch"
  shows "add_all r (map DictV ds)
         = Returned (r\<lparr>d_checks := Some (keywise_sum (ch # cs)), d_unit_count := Some (u + sum_list us)\<rparr>)"
  using assms
proof (induction ds arbitrary: r u ch us cs)
  case Nil
  then show ?case by (simp add: keywise_sum_single)
next
  case (Cons d ds)
  from Cons.prems(1) obtain iu us' where us: "us = iu # us'" "d_unit_count d = Some iu"
    "map d_unit_count ds = map Some us'" by (cases us) auto
  from Cons.prems(2) obtain ic cs' where cs: "cs = ic # cs'" "d_checks d = Some ic"
    "map d_checks ds = map Some cs'" by (cases cs) auto
  let ?r1 = "r\<lparr>d_checks := Some (dictsum ch ic), d_unit_count := Some (u + iu)\<rparr>"
  have a: "add_checks r (DictV d) = Returned ?r1"
    using Cons.prems(3,4) us(2) cs(2) by (simp add: add_checks_def)
  have "add_all ?r1 (map DictV ds)
         = Returned (?r1\<lparr>d_checks := Some (keywise_sum (dictsum ch ic # cs')),
                          d_unit_count := Some ((u + iu) + sum_list us')\<rparr>)"
    by (rule Cons.IH[OF us(3) cs(3)]) simp_all
  with a us(1) cs(1) show ?case by (simp add: keywise_sum_dictsum add.assoc)
qed

lemma checks_env_simps [simp]:
  "get_children checks_env = get_children chain_env"
  "get_parents checks_env = get_parents chain_env"
  "get_cachekey checks_env = get_cachekey chain_env"
  "iri_to_uri checks_env = (\<lambda>k. k)"
  "p_get_checks checks_env = (\<lambda>n.
     if n = 1 then empty_dict\<lparr>d_unit_count := Some 2, d_checks := Some [''critical'' \<mapsto> 1]\<rparr>
     else empty_dict\<lparr>d_unit_count := Some 3, d_checks := Some [''critical'' \<mapsto> 2, ''warning'' \<mapsto> 1]\<rparr>)"
  by (simp_all add: checks_env_def chain_env_def)

lemma mtime_key_dict: "mtime_key (DictV d) = Returned (action_key d)"
  by (simp add: action_key_def split: option.splits)

lemma is_first_max_single: "is_first_max key x [x]"
  unfolding is_first_max_def by (rule exI[of _ "[]"], rule exI[of _ "[]"]) simp

lemma is_first_max_snoc_le:
  assumes "is_first_max key r xs" and "key y \<le> key r"
  shows "is_first_max key r (xs @ [y])"
proof -
  from assms(1) obtain before after where "xs = before @ r # after"
    "\<forall>x \<in> set before. key x < key r" "\<forall>x \<in> set after. key x \<le> key r"
    unfolding is_first_max_def by blast
  with assms(2) show ?thesis
    unfolding is_first_max_def
    by (intro exI[of _ before] exI[of _ "after @ [y]"]) auto
qed

lemma is_first_max_snoc_gt:
  assumes "is_first_max key r xs" and "key r < key y"
  shows "is_first_max key y (xs @ [y])"
proof -
  from assms(1) obtain before after where "xs = before @ r # after"
    "\<forall>x \<in> set before. key x < key r" "\<forall>x \<in> set after. key x \<le> key r"
    unfolding is_first_max_def by blast
  with assms(2) show ?thesis
    unfolding is_first_max_def
    by (intro exI[of _ xs] exI[of _ "[]"]) auto
qed

lemma max_loop_first_max:
  "is_first_max action_key b seen \<Longrightarrow>
   \<exists>r. max_loop mtime_key (DictV b) (action_key b) (map DictV ds) = Returned (DictV r)
      \<and> is_first_max action_key r (seen @ ds)"
proof (induction ds arbitrary: b seen)
  case Nil
  then show ?case by simp
next
  case (Cons d ds)
  show ?case
  proof (cases "action_key d > action_key b")
    case True
    with Cons.prems have "is_first_max action_key d (seen @ [d])"
      by (intro is_first_max_snoc_gt) auto
    from Cons.IH[OF this] True show ?thesis by (simp add: mtime_key_dict del: mtime_key.simps)
  next
    case False
    with Cons.prems have "is_first_max action_key b (seen @ [d])"
      by (intro is_first_max_snoc_le) auto
    from Cons.IH[OF this] False show ?thesis by (simp add: mtime_key_dict del: mtime_key.simps)
  qed
qed

lemma py_max_first_max:
  "\<exists>r. py_max mtime_key (DictV own) (map DictV ds) = Returned (DictV r)
      \<and> is_first_max action_key r (own # ds)"
  using max_loop_first_max[OF is_first_max_single, of own ds]
  by (simp add: mtime_key_dict del: mtime_key.simps)

lemma max_env_simps [simp]:
  "get_children max_env = (\<lambda>n. if n = 0 then [1, 2] else [])"
  "get_cachekey max_env = get_cachekey chain_env"
  "iri_to_uri max_env = (\<lambda>k. k)"
  "p_get_last_action max_env = (\<lambda>n. if n = 0 then action_at 0 5 else if n = 1 then action_at 1 3
                                else action_at 2 9)"
  by (simp_all add: max_env_def chain_env_def)

lemma undated_env_simps [simp]:
  "get_children undated_env = get_children chain_env"
  "get_cachekey undated_env = get_cachekey chain_env"
  "iri_to_uri undated_env = (\<lambda>k. k)"
  "p_get_last_action undated_env = (\<lambda>n. if n = 1 then action_at 1 (- 5)
                                else empty_dict\<lparr>d_id := Some 2, d_snippet := Some ''none''\<rparr>)"
  by (simp_all add: undated_env_def chain_env_def)

lemma refresh_stats_run:
  assumes "refresh_stats e fuel n True s = Returned s'"
  shows "\<exists>f cs t u. fuel = Suc f
           \<and> self_children n (initialize_children e n s) = Returned cs
           \<and> for_each (\<lambda>item. refresh_stats e f item True) cs (initialize_children e n s) = Returned t
           \<and> clear_all_cache e fuel n False True t = Returned u
           \<and> (\<forall>name \<in> set get_all. get_cached_value e n name u = Returned None)
           \<and> flagged_for_deletion (items u n) = {}
           \<and> read_stats e fuel n u = Returned s'"
proof -
  from assms obtain f where f: "fuel = Suc f" by (cases fuel) auto
  let ?s0 = "initialize_children e n s"
  from assms f obtain cs where cs: "self_children n ?s0 = Returned cs"
    by (cases "self_children n ?s0") auto
  from assms f cs obtain t where t: "for_each (\<lambda>item. refresh_stats e f item True) cs ?s0 = Returned t"
    by (cases "for_each (\<lambda>item. refresh_stats e f item True) cs ?s0") auto
  from assms f cs t obtain u where u: "clear_all_cache e fuel n False True t = Returned u"
    by (cases "clear_all_cache e fuel n False True t") auto
  from assms f cs t u have r: "read_stats e fuel n u = Returned s'" by simp
  from u have "(\<forall>name \<in> set get_all. get_cached_value e n name u = Returned None)
       \<and> flagged_for_deletion (items u n) = {}" by (rule clear_all_cache_own_entries)
  with f cs t u r show ?thesis by blast
qed

section \<open>Claims on the child loader and the invalidation propagator\<close>

text \<open>
  Claim C9. \<^verbatim>\<open>initialize_children\<close> is idempotent per node instance: on a node that is
  not yet initialized (as \<^verbatim>\<open>__init__\<close> leaves it), any number \<open>k > 0\<close> of calls
  invokes the node's \<^verbatim>\<open>get_children()\<close> exactly once, and the state after \<open>k\<close> calls is
  the state after the first one, so the children list and the flag are not changed by
  the later calls.
\<close>

theorem initialize_children_once:
  assumes "\<not> initialized (items s n)" and "0 < k"
  shows "get_children_calls (((initialize_children e n) ^^ k) s) n = Suc (get_children_calls s n)
       \<and> ((initialize_children e n) ^^ k) s = initialize_children e n s
       \<and> children (items (((initialize_children e n) ^^ k) s) n) = Some (get_children e n)
       \<and> initialized (items (((initialize_children e n) ^^ k) s) n)"
  using assms by (simp add: initialize_children_funpow) (simp add: initialize_children_def)

theorem initialize_children_once_witness:
  "\<not> initialized (items init_state 0) \<and> (0::nat) < 2
   \<and> get_children_calls (((initialize_children chain_env 0) ^^ 2) init_state) 0 = 1
   \<and> children (items (((initialize_children chain_env 0) ^^ 2) init_state) 0) = Some [1]
   \<and> initialized (items (((initialize_children chain_env 0) ^^ 2) init_state) 0)"
proof -
  have h: "\<not> initialized (items init_state 0)" by (simp add: init_state_def init_treeitem_def)
  show ?thesis
    using initialize_children_once[OF h, of 2 chain_env] h
    by (simp add: init_state_def initialize_children_def init_treeitem_def)
qed

text \<open>
  Claim C10. When nothing is flagged for deletion on a node, \<^verbatim>\<open>clear_flagged_cache\<close>
  deletes no cache entry: whenever the call returns, the cache is the one before the
  call, for every choice of \<^verbatim>\<open>parents\<close> and \<^verbatim>\<open>children\<close>; and the call does return
  when every node has a cache key, the parent and child edges are acyclic and the fuel
  exceeds the node's ranks.
\<close>

theorem clear_flagged_cache_nothing_flagged:
  assumes "flagged_for_deletion (items s n) = {}"
  shows "(\<forall>s'. clear_flagged_cache e fuel n parents chn s = Returned s' \<longrightarrow> cache s' = cache s)
       \<and> (has_cachekeys e \<and> parents_ranked e up \<and> children_ranked e down \<and> memo_ok e s
            \<and> up n < fuel \<and> down n < fuel
           \<longrightarrow> (\<exists>s'. clear_flagged_cache e fuel n parents chn s = Returned s'))"
proof (intro conjI allI impI)
  fix s' assume r: "clear_flagged_cache e fuel n parents chn s = Returned s'"
  then obtain s1 where s1: "p_clear_cache e fuel n {} parents chn s = Returned s1"
    and s': "s' = s1\<lparr>items := (items s1)(n := (items s1 n)\<lparr>flagged_for_deletion := {}\<rparr>)\<rparr>"
    using assms by (cases "p_clear_cache e fuel n {} parents chn s") (auto simp: clear_flagged_cache_def)
  from s1 have "cache s1 = cache s" by (rule p_clear_cache_empty)
  with s' show "cache s' = cache s" by simp
next
  assume h: "has_cachekeys e \<and> parents_ranked e up \<and> children_ranked e down \<and> memo_ok e s
            \<and> up n < fuel \<and> down n < fuel"
  then have "\<exists>s1. p_clear_cache e fuel n (flagged_for_deletion (items s n)) parents chn s = Returned s1
                 \<and> (memo_ok e s \<longrightarrow> memo_ok e s1)"
    by (intro p_clear_cache_total) auto
  then show "\<exists>s'. clear_flagged_cache e fuel n parents chn s = Returned s'"
    by (auto simp: clear_flagged_cache_def)
qed

theorem clear_flagged_cache_nothing_flagged_witness:
  "flagged_for_deletion (items warm_state 1) = {}
   \<and> has_cachekeys chain_env \<and> parents_ranked chain_env (\<lambda>n. n) \<and> children_ranked chain_env (\<lambda>n. 2 - n)
   \<and> memo_ok chain_env warm_state \<and> (1::nat) < 3 \<and> (2::nat) - 1 < 3
   \<and> (\<exists>s'. clear_flagged_cache chain_env 3 1 True True warm_state = Returned s'
          \<and> cache s' = cache warm_state)"
proof -
  have h0: "flagged_for_deletion (items warm_state 1) = {}"
    by (simp add: warm_state_def init_state_def init_treeitem_def)
  have h1: "has_cachekeys chain_env" by (simp add: has_cachekeys_def)
  have h2: "parents_ranked chain_env (\<lambda>n. n)" by (simp add: parents_ranked_def)
  have h3: "children_ranked chain_env (\<lambda>n. 2 - n)" by (simp add: children_ranked_def)
  have h4: "memo_ok chain_env warm_state"
    by (simp add: memo_ok_def warm_state_def init_state_def init_treeitem_def)
  show ?thesis
    using clear_flagged_cache_nothing_flagged[OF h0, of chain_env 3 True True "\<lambda>n. n" "\<lambda>n. 2 - n"]
      h0 h1 h2 h3 h4 by auto
qed

text \<open>
  Claim C5. Upward propagation over three levels: with \<open>B\<close> a parent of \<open>C\<close> and \<open>A\<close> a
  parent of \<open>B\<close>, after \<^verbatim>\<open>flag_for_deletion\<close> of the total word count on \<open>C\<close> and
  \<^verbatim>\<open>clear_flagged_cache(parents=True, children=False)\<close> on \<open>C\<close>, the cache holds no
  total word count entry for \<open>C\<close>, \<open>B\<close> or \<open>A\<close>, and nothing is flagged on \<open>C\<close> any more.
\<close>

theorem clear_flagged_cache_upward:
  assumes "has_cachekeys e" and "parents_ranked e up" and "up C < fuel"
    and "B \<in> set (get_parents e C)" and "A \<in> set (get_parents e B)"
  shows "\<exists>s'. clear_flagged_cache e fuel C True False (flag_for_deletion C [TOTAL] s) = Returned s'
           \<and> get_cached_value e C TOTAL s' = Returned None
           \<and> get_cached_value e B TOTAL s' = Returned None
           \<and> get_cached_value e A TOTAL s' = Returned None
           \<and> flagged_for_deletion (items s' C) = {}"
proof -
  let ?s = "flag_for_deletion C [TOTAL] s"
  let ?keys = "flagged_for_deletion (items ?s C)"
  have tk: "TOTAL \<in> ?keys" by (simp add: flag_for_deletion_def)
  from assms(1,2,3) obtain s1 where s1: "p_clear_cache e fuel C ?keys True False ?s = Returned s1"
    using p_clear_cache_total[OF assms(1), of True up C fuel False undefined ?s ?keys] by auto
  from assms(1) obtain ka kb kc where k: "get_cachekey e A = Some ka" "get_cachekey e B = Some kb"
      "get_cachekey e C = Some kc"
    unfolding has_cachekeys_def by (metis option.exhaust)
  from assms(4,5) have rb: "(B, C) \<in> (parent_rel e)\<^sup>*" and ra: "(A, C) \<in> (parent_rel e)\<^sup>*"
    by (auto simp: parent_rel_def intro: rtrancl_trans)
  have "cache s1 (make_key e kc TOTAL) = None"
    using s1 _ k(3) tk by (rule p_clear_cache_ancestors) simp
  moreover have "cache s1 (make_key e kb TOTAL) = None"
    using s1 rb k(2) tk by (rule p_clear_cache_ancestors)
  moreover have "cache s1 (make_key e ka TOTAL) = None"
    using s1 ra k(1) tk by (rule p_clear_cache_ancestors)
  ultimately show ?thesis
    using s1 k by (simp add: clear_flagged_cache_def get_cached_value_def)
qed

theorem clear_flagged_cache_upward_witness:
  "has_cachekeys chain_env \<and> parents_ranked chain_env (\<lambda>n. n) \<and> (2::nat) < 3
   \<and> 1 \<in> set (get_parents chain_env 2) \<and> 0 \<in> set (get_parents chain_env 1)
   \<and> get_cached_value chain_env 0 TOTAL warm_state = Returned (Some (IntV 111))
   \<and> (\<exists>s'. clear_flagged_cache chain_env 3 2 True False (flag_for_deletion 2 [TOTAL] warm_state) = Returned s'
           \<and> get_cached_value chain_env 2 TOTAL s' = Returned None
           \<and> get_cached_value chain_env 1 TOTAL s' = Returned None
           \<and> get_cached_value chain_env 0 TOTAL s' = Returned None
           \<and> flagged_for_deletion (items s' 2) = {})"
proof -
  have h1: "has_cachekeys chain_env" by (simp add: has_cachekeys_def)
  have h2: "parents_ranked chain_env (\<lambda>n. n)" by (simp add: parents_ranked_def)
  have h3: "(1::nat) \<in> set (get_parents chain_env 2)" by simp
  have h4: "(0::nat) \<in> set (get_parents chain_env 1)" by simp
  have h5: "get_cached_value chain_env 0 TOTAL warm_state = Returned (Some (IntV 111))"
    by (simp add: get_cached_value_def make_key_def warm_state_def init_state_def TOTAL_def)
  show ?thesis
    using clear_flagged_cache_upward[OF h1 h2 _ h3 h4, of 3 warm_state] h1 h2 h3 h4 h5 by simp
qed

text \<open>
  Claim C3. In \<^verbatim>\<open>refresh_stats\<close> with \<^verbatim>\<open>include_children=True\<close> the step
  \<^verbatim>\<open>clear_all_cache(parents=True, children=False)\<close> of the \<^verbatim>\<open>else\<close> clause runs
  whenever the loop over the children completes, whatever the list of children is: every
  returning run consists of the loop, then the clearing (after which the node has no
  entry for any cached method and nothing flagged), then the eight reads.
\<close>

theorem refresh_stats_clear_step:
  assumes "refresh_stats e fuel n True s = Returned s'"
  shows "\<exists>f cs t u. fuel = Suc f
           \<and> self_children n (initialize_children e n s) = Returned cs
           \<and> for_each (\<lambda>item. refresh_stats e f item True) cs (initialize_children e n s) = Returned t
           \<and> clear_all_cache e fuel n False True t = Returned u
           \<and> (\<forall>name \<in> set get_all. get_cached_value e n name u = Returned None)
           \<and> flagged_for_deletion (items u n) = {}
           \<and> read_stats e fuel n u = Returned s'"
  using assms by (rule refresh_stats_run)

theorem refresh_stats_clear_step_witness:
  "self_children 1 (initialize_children chain_env 1 stale_state) = Returned [2]
   \<and> get_cached_value chain_env 1 TOTAL stale_state = Returned (Some (IntV 999))
   \<and> (\<exists>s'. refresh_stats chain_env 4 1 True stale_state = Returned s'
         \<and> get_cached_value chain_env 1 TOTAL s' = Returned (Some (IntV 110))
         \<and> (\<exists>f cs t u. (4::nat) = Suc f
           \<and> self_children 1 (initialize_children chain_env 1 stale_state) = Returned cs
           \<and> for_each (\<lambda>item. refresh_stats chain_env f item True) cs
                (initialize_children chain_env 1 stale_state) = Returned t
           \<and> clear_all_cache chain_env 4 1 False True t = Returned u
           \<and> (\<forall>name \<in> set get_all. get_cached_value chain_env 1 name u = Returned None)
           \<and> flagged_for_deletion (items u 1) = {}
           \<and> read_stats chain_env 4 1 u = Returned s'))"
proof -
  have a: "self_children 1 (initialize_children chain_env 1 stale_state) = Returned [2]"
    by (simp add: self_children_def initialize_children_def stale_state_def init_state_def
        init_treeitem_def)
  have b: "get_cached_value chain_env 1 TOTAL stale_state = Returned (Some (IntV 999))"
    by (simp add: get_cached_value_def make_key_def stale_state_def TOTAL_def)
  obtain s' where r: "refresh_stats chain_env 4 1 True stale_state = Returned s'"
    and c: "get_cached_value chain_env 1 TOTAL s' = Returned (Some (IntV 110))"
    using run_B by blast
  from refresh_stats_clear_step[OF r] a b r c show ?thesis by blast
qed


section \<open>Claims on \<^verbatim>\<open>set_last_action\<close>\<close>

text \<open>
  Claim C1, as the code has it. Every returning call \<^verbatim>\<open>set_last_action(node, action)\<close>
  leaves the action as the node's cached last action. A parent whose cached last action,
  read just after that write, is present, true as a Python value, and has an \<^verbatim>\<open>mtime\<close>
  strictly earlier than the action's, ends with the action as its cached last action
  (\<^verbatim>\<open>set_last_action\<close> reaches it); a parent for which the test is false, in particular
  one with no cached last action, keeps what it had: no call is made on it (a call would
  write its entry). The call returns when every node has a cache key, the parent edges
  are acyclic, the fuel exceeds the node's rank, the action has an \<^verbatim>\<open>mtime\<close> and every
  cached value can be compared with it.
\<close>

theorem set_last_action_parents:
  "(\<forall>s'. set_last_action e fuel n a s = Returned s' \<longrightarrow>
      get_cached_value e n LAST_ACTION s' = Returned (Some (DictV a))
      \<and> (\<forall>p \<in> set (get_parents e n). \<forall>pla.
            bindR (set_cached_value e n LAST_ACTION (DictV a) s) (get_cached_value e p LAST_ACTION)
              = Returned pla \<longrightarrow>
            (parent_is_older pla a = Returned True \<longrightarrow>
               get_cached_value e p LAST_ACTION s' = Returned (Some (DictV a)))
            \<and> (parent_is_older pla a = Returned False \<longrightarrow>
               get_cached_value e p LAST_ACTION s' = Returned pla)))
   \<and> (has_cachekeys e \<and> parents_ranked e up \<and> up n < fuel \<and> d_mtime a \<noteq> None
        \<and> entries_comparable a s
       \<longrightarrow> (\<exists>s'. set_last_action e fuel n a s = Returned s'))"
proof (intro conjI allI impI ballI)
  assume "has_cachekeys e \<and> parents_ranked e up \<and> up n < fuel \<and> d_mtime a \<noteq> None
        \<and> entries_comparable a s"
  then show "\<exists>s'. set_last_action e fuel n a s = Returned s'"
    using set_last_action_total[of e up a n fuel s] by blast
next
  fix s' assume r: "set_last_action e fuel n a s = Returned s'"
  from set_last_action_changes[OF r] obtain ik where ik: "get_cachekey e n = Some ik"
    and ch: "\<And>k. cache s' k = ((cache s)(make_key e ik LAST_ACTION \<mapsto> DictV a)) k
            \<or> (cache s' k = Some (DictV a)
                \<and> parent_is_older (((cache s)(make_key e ik LAST_ACTION \<mapsto> DictV a)) k) a = Returned True)"
    by blast
  from ch[of "make_key e ik LAST_ACTION"] ik
  show own: "get_cached_value e n LAST_ACTION s' = Returned (Some (DictV a))"
    by (auto simp: get_cached_value_def)
  fix p pla
  assume p: "p \<in> set (get_parents e n)"
    and pla: "bindR (set_cached_value e n LAST_ACTION (DictV a) s) (get_cached_value e p LAST_ACTION)
              = Returned pla"
  from pla ik obtain kp where kp: "get_cachekey e p = Some kp"
    and pla': "pla = ((cache s)(make_key e ik LAST_ACTION \<mapsto> DictV a)) (make_key e kp LAST_ACTION)"
    by (cases "get_cachekey e p") (auto simp: set_cached_value_def get_cached_value_def)
  {
    assume f: "parent_is_older pla a = Returned False"
    with ch[of "make_key e kp LAST_ACTION"] pla' kp
    show "get_cached_value e p LAST_ACTION s' = Returned pla"
      by (auto simp: get_cached_value_def)
  }
  assume tr: "parent_is_older pla a = Returned True"
  from r obtain f where f: "fuel = Suc f" by (cases fuel) auto
  let ?c1 = "(cache s)(make_key e ik LAST_ACTION \<mapsto> DictV a)"
  let ?s1 = "s\<lparr>cache := ?c1\<rparr>"
  let ?body = "\<lambda>p s1. bindR (get_cached_value e p LAST_ACTION s1)
              (\<lambda>pla. bindR (parent_is_older pla a)
                 (\<lambda>older. if older then set_last_action e f p a s1 else Returned s1))"
  let ?kp = "make_key e kp LAST_ACTION"
  let ?P = "\<lambda>u. cache u ?kp = ?c1 ?kp \<or> cache u ?kp = Some (DictV a)"
  let ?Q = "\<lambda>u. cache u ?kp = Some (DictV a)"
  from r f ik have fe: "for_each ?body (get_parents e n) ?s1 = Returned s'"
    by (simp add: set_cached_value_def)
  have step: "cache u' ?kp = cache u ?kp \<or> cache u' ?kp = Some (DictV a)"
    if "?body y u = Returned u'" for y u u'
  proof -
    from that obtain ky where ky: "get_cachekey e y = Some ky"
      by (cases "get_cachekey e y") (auto simp: get_cached_value_def)
    from that ky obtain older where
      u': "(if older then set_last_action e f y a u else Returned u) = Returned u'"
      by (auto simp: get_cached_value_def bindR_Returned)
    show ?thesis
    proof (cases older)
      case False
      with u' show ?thesis by simp
    next
      case True
      with u' have "set_last_action e f y a u = Returned u'" by simp
      from set_last_action_entry[OF this ky, of ?kp] show ?thesis by auto
    qed
  qed
  from fe have "?Q s'"
  proof (rule for_each_establish_inv[where P = ?P and Q = ?Q and x = p])
    show "?P ?s1" by simp
    show "p \<in> set (get_parents e n)" by (rule p)
  next
    fix y u u' assume "?P u" "?body y u = Returned u'"
    then show "?P u'" using step[of y u u'] by auto
  next
    fix y u u' assume "?Q u" "?body y u = Returned u'"
    then show "?Q u'" using step[of y u u'] by auto
  next
    fix u u' assume pu: "?P u" and b: "?body p u = Returned u'"
    from b kp obtain older where o: "parent_is_older (cache u ?kp) a = Returned older"
      and u': "(if older then set_last_action e f p a u else Returned u) = Returned u'"
      by (auto simp: get_cached_value_def bindR_Returned)
    show "?Q u'"
    proof (cases older)
      case True
      with u' have "set_last_action e f p a u = Returned u'" by simp
      from set_last_action_entry[OF this kp, of ?kp] show ?thesis by auto
    next
      case False
      with o tr pla' pu have "cache u ?kp = Some (DictV a)" by auto
      with False u' show ?thesis by simp
    qed
  qed
  with kp show "get_cached_value e p LAST_ACTION s' = Returned (Some (DictV a))"
    by (simp add: get_cached_value_def)
qed

theorem set_last_action_parents_witness:
  "has_cachekeys chain_env \<and> parents_ranked chain_env (\<lambda>n. n) \<and> (2::nat) < 3
   \<and> d_mtime new_action \<noteq> None \<and> entries_comparable new_action action_state
   \<and> 1 \<in> set (get_parents chain_env 2)
   \<and> bindR (set_cached_value chain_env 2 LAST_ACTION (DictV new_action) action_state)
        (get_cached_value chain_env 1 LAST_ACTION) = Returned (Some (DictV earlier_action))
   \<and> parent_is_older (Some (DictV earlier_action)) new_action = Returned True
   \<and> (\<exists>s'. set_last_action chain_env 3 2 new_action action_state = Returned s'
         \<and> get_cached_value chain_env 2 LAST_ACTION s' = Returned (Some (DictV new_action))
         \<and> get_cached_value chain_env 1 LAST_ACTION s' = Returned (Some (DictV new_action)))"
proof -
  have h1: "has_cachekeys chain_env" by (simp add: has_cachekeys_def)
  have h2: "parents_ranked chain_env (\<lambda>n. n)" by (simp add: parents_ranked_def)
  have h3: "d_mtime new_action \<noteq> None" by (simp add: action_defs)
  have h4: "entries_comparable new_action action_state"
    by (simp add: entries_comparable_def action_defs)
  have h5: "(1::nat) \<in> set (get_parents chain_env 2)" by simp
  have h6: "bindR (set_cached_value chain_env 2 LAST_ACTION (DictV new_action) action_state)
        (get_cached_value chain_env 1 LAST_ACTION) = Returned (Some (DictV earlier_action))"
    by (simp add: action_defs eval_defs)
  have h7: "parent_is_older (Some (DictV earlier_action)) new_action = Returned True"
    by (simp add: action_defs)
  note t = set_last_action_parents[of chain_env 3 2 new_action action_state "\<lambda>n. n"]
  from t h1 h2 h3 h4 obtain s' where r: "set_last_action chain_env 3 2 new_action action_state = Returned s'"
    by auto
  from t r h5 h6 h7 have "get_cached_value chain_env 2 LAST_ACTION s' = Returned (Some (DictV new_action))
      \<and> get_cached_value chain_env 1 LAST_ACTION s' = Returned (Some (DictV new_action))"
    by blast
  with h1 h2 h3 h4 h5 h6 h7 r show ?thesis by simp
qed

text \<open>
  Claim C1 as stated fails when a parent has no cached last action: the guard
  \<^verbatim>\<open>if pla and ...\<close> is false for \<^verbatim>\<open>None\<close>. In the chain, with an empty cache,
  \<^verbatim>\<open>set_last_action\<close> on node 2 writes the node's entry and parent 1 still has none.
\<close>

theorem set_last_action_absent_parent:
  "get_cached_value chain_env 1 LAST_ACTION init_state = Returned None
   \<and> bindR (set_last_action chain_env 3 2 new_action init_state)
        (get_cached_value chain_env 2 LAST_ACTION) = Returned (Some (DictV new_action))
   \<and> bindR (set_last_action chain_env 3 2 new_action init_state)
        (get_cached_value chain_env 1 LAST_ACTION) = Returned None"
  by (simp add: eval_nat_numeral eval_defs action_defs)





section \<open>Claims on the stat aggregator\<close>

text \<open>
  Claim C6. The sum law: for a node with raw total word count \<open>r\<close> whose children's
  \<^verbatim>\<open>get_total_wordcount\<close> return \<open>c\<^sub>1, \<dots>, c\<^sub>n\<close>, \<^verbatim>\<open>get_total_wordcount\<close> returns
  \<open>r + c\<^sub>1 + \<dots> + c\<^sub>n\<close> (\<open>r\<close> for a leaf), in a state where the node's cache entry is
  absent or holds that sum (the cache is never wrong, only missing).
\<close>

theorem get_total_wordcount_sum:
  assumes "get_cachekey e n = Some ik"
    and "memo_ok e s"
    and "collect (get_total_wordcount e fuel) (get_children e n) (initialize_children e n s)
           = Returned (map IntV c, s1)"
    and "cache s (make_key e ik TOTAL) = None
         \<or> cache s (make_key e ik TOTAL) = Some (IntV (p_get_total_wordcount e n + sum_list c))"
  shows "\<exists>s'. get_total_wordcount e (Suc fuel) n s
           = Returned (IntV (p_get_total_wordcount e n + sum_list c), s')"
proof -
  have sc: "self_children n (initialize_children e n s) = Returned (get_children e n)"
    using assms(2) by (rule self_children_initialize)
  from assms(3) have col: "collect (cached_stat e fuel Total) (get_children e n) (initialize_children e n s)
           = Returned (map IntV c, s1)" by (simp add: get_total_wordcount_def)
  from assms(4) show ?thesis
  proof
    assume "cache s (make_key e ik TOTAL) = None"
    with assms(1) sc col show ?thesis
      by (simp add: get_total_wordcount_def getfromcache_def count_body_def p_sum_def py_sum_ints)
  next
    assume "cache s (make_key e ik TOTAL) = Some (IntV (p_get_total_wordcount e n + sum_list c))"
    with assms(1) show ?thesis
      by (simp add: get_total_wordcount_def getfromcache_def)
  qed
qed

theorem get_total_wordcount_sum_witness:
  "get_cachekey chain_env 0 = Some ''A'' \<and> memo_ok chain_env sum_state
   \<and> collect (get_total_wordcount chain_env 1) (get_children chain_env 0)
        (initialize_children chain_env 0 sum_state)
       = Returned (map IntV [110], initialize_children chain_env 0 sum_state)
   \<and> cache sum_state (make_key chain_env ''A'' TOTAL) = None
   \<and> (\<exists>s'. get_total_wordcount chain_env 2 0 sum_state = Returned (IntV (1 + 110), s'))"
proof -
  have h1: "get_cachekey chain_env 0 = Some ''A''" by simp
  have h2: "memo_ok chain_env sum_state"
    by (simp add: memo_ok_def sum_state_def init_state_def init_treeitem_def)
  have h3: "collect (get_total_wordcount chain_env 1) (get_children chain_env 0)
        (initialize_children chain_env 0 sum_state)
       = Returned (map IntV [110], initialize_children chain_env 0 sum_state)"
    by (simp add: sum_state_def eval_defs)
  have h4: "cache sum_state (make_key chain_env ''A'' TOTAL) = None"
    by (simp add: sum_state_def eval_defs)
  from get_total_wordcount_sum[OF h1 h2 h3] h4 h1 h2 h3 show ?thesis
    by (simp add: eval_nat_numeral)
qed

text \<open>
  Claim C8. The dict-sum law: \<^verbatim>\<open>get_checks\<close> returns the node's own raw record with
  \<^verbatim>\<open>unit_count\<close> replaced by the sum of the own count and the children's counts, and
  \<^verbatim>\<open>checks\<close> by the key-wise sum of the own mapping and the children's mappings, a key
  missing from a mapping counting as 0, in a state where the node's cache entry is
  absent or holds that record.
\<close>

theorem get_checks_dictsum:
  assumes "get_cachekey e n = Some ik"
    and "memo_ok e s"
    and "d_unit_count (p_get_checks e n) = Some u" and "d_checks (p_get_checks e n) = Some ch"
    and "collect (get_checks e fuel) (get_children e n) (initialize_children e n s)
           = Returned (map DictV ds, s1)"
    and "map d_unit_count ds = map Some us" and "map d_checks ds = map Some cs"
    and "cache s (make_key e ik CHECKS) = None
         \<or> cache s (make_key e ik CHECKS)
            = Some (DictV ((p_get_checks e n)\<lparr>d_checks := Some (keywise_sum (ch # cs)),
                                              d_unit_count := Some (u + sum_list us)\<rparr>))"
  shows "\<exists>s'. get_checks e (Suc fuel) n s
           = Returned (DictV ((p_get_checks e n)\<lparr>d_checks := Some (keywise_sum (ch # cs)),
                                                d_unit_count := Some (u + sum_list us)\<rparr>), s')"
proof -
  have sc: "self_children n (initialize_children e n s) = Returned (get_children e n)"
    using assms(2) by (rule self_children_initialize)
  from assms(5) have col: "collect (cached_stat e fuel Checks) (get_children e n) (initialize_children e n s)
           = Returned (map DictV ds, s1)" by (simp add: get_checks_def)
  note loop = checks_loop_collect[OF col, of "p_get_checks e n"]
  note sum = add_all_checks[OF assms(6,7,3,4)]
  from assms(8) show ?thesis
  proof
    assume "cache s (make_key e ik CHECKS) = None"
    with assms(1) sc loop sum show ?thesis
      by (simp add: get_checks_def getfromcache_def checks_body_def)
  next
    assume "cache s (make_key e ik CHECKS)
            = Some (DictV ((p_get_checks e n)\<lparr>d_checks := Some (keywise_sum (ch # cs)),
                                              d_unit_count := Some (u + sum_list us)\<rparr>))"
    with assms(1) show ?thesis
      by (simp add: get_checks_def getfromcache_def)
  qed
qed

theorem get_checks_dictsum_witness:
  "get_cachekey checks_env 1 = Some ''B'' \<and> memo_ok checks_env init_state
   \<and> p_get_checks checks_env 1 = empty_dict\<lparr>d_unit_count := Some 2, d_checks := Some [''critical'' \<mapsto> 1]\<rparr>
   \<and> (\<exists>s1. collect (get_checks checks_env 1) (get_children checks_env 1)
              (initialize_children checks_env 1 init_state)
        = Returned (map DictV [empty_dict\<lparr>d_unit_count := Some 3,
                      d_checks := Some [''critical'' \<mapsto> 2, ''warning'' \<mapsto> 1]\<rparr>], s1))
   \<and> cache init_state (make_key checks_env ''B'' CHECKS) = None
   \<and> (\<exists>s'. get_checks checks_env 2 1 init_state
         = Returned (DictV (empty_dict\<lparr>d_unit_count := Some 5,
                      d_checks := Some [''critical'' \<mapsto> 3, ''warning'' \<mapsto> 1]\<rparr>), s'))"
proof -
  let ?child = "empty_dict\<lparr>d_unit_count := Some 3, d_checks := Some [''critical'' \<mapsto> 2, ''warning'' \<mapsto> 1]\<rparr>"
  have h1: "get_cachekey checks_env 1 = Some ''B''" by simp
  have h2: "memo_ok checks_env init_state"
    by (simp add: memo_ok_def init_state_def init_treeitem_def)
  have h3: "d_unit_count (p_get_checks checks_env 1) = Some 2" by simp
  have h4: "d_checks (p_get_checks checks_env 1) = Some [''critical'' \<mapsto> 1]" by simp
  have "case collect (get_checks checks_env 1) (get_children checks_env 1)
              (initialize_children checks_env 1 init_state) of
          Returned (vs, s1) \<Rightarrow> vs = map DictV [?child] | Raised x \<Rightarrow> False | Timeout \<Rightarrow> False"
    by (simp add: eval_defs)
  then have "\<exists>s1. collect (get_checks checks_env 1) (get_children checks_env 1)
              (initialize_children checks_env 1 init_state) = Returned (map DictV [?child], s1)"
    by (rule returned_first)
  then obtain s1 where h5: "collect (get_checks checks_env 1) (get_children checks_env 1)
              (initialize_children checks_env 1 init_state) = Returned (map DictV [?child], s1)" ..
  have h6: "map d_unit_count [?child] = map Some [3]" by simp
  have h7: "map d_checks [?child] = map Some [[''critical'' \<mapsto> 2, ''warning'' \<mapsto> 1]]" by simp
  have h8: "cache init_state (make_key checks_env ''B'' CHECKS) = None" by (simp add: init_state_def)
  have k: "keywise_sum [[''critical'' \<mapsto> 1], [''critical'' \<mapsto> 2, ''warning'' \<mapsto> 1]]
           = [''critical'' \<mapsto> 3, ''warning'' \<mapsto> 1]"
    by (rule ext) (simp add: keywise_sum_def)
  from get_checks_dictsum[OF h1 h2 h3 h4 h5 h6 h7] h8 k
  have "\<exists>s'. get_checks checks_env 2 1 init_state
         = Returned (DictV (empty_dict\<lparr>d_unit_count := Some 5,
                      d_checks := Some [''critical'' \<mapsto> 3, ''warning'' \<mapsto> 1]\<rparr>), s')"
    by (simp add: eval_nat_numeral empty_dict_def)
  with h1 h2 h5 h8 show ?thesis by auto
qed

text \<open>
  Claim C7, as the code has it. \<^verbatim>\<open>get_last_action\<close> returns, among the node's own raw
  record followed by the children's records, the first one whose key is the greatest,
  the key of a record being its \<^verbatim>\<open>mtime\<close>, and 0 for a record without \<^verbatim>\<open>mtime\<close>; in
  a state where the node's cache entry is absent or holds such a record.
\<close>

theorem get_last_action_first_max:
  assumes "get_cachekey e n = Some ik"
    and "memo_ok e s"
    and "collect (get_last_action e fuel) (get_children e n) (initialize_children e n s)
           = Returned (map DictV ds, s1)"
    and "cache s (make_key e ik LAST_ACTION) = None
         \<or> (\<exists>c. cache s (make_key e ik LAST_ACTION) = Some (DictV c)
                \<and> is_first_max action_key c (p_get_last_action e n # ds))"
  shows "\<exists>r s'. get_last_action e (Suc fuel) n s = Returned (DictV r, s')
           \<and> is_first_max action_key r (p_get_last_action e n # ds)"
proof -
  have sc: "self_children n (initialize_children e n s) = Returned (get_children e n)"
    using assms(2) by (rule self_children_initialize)
  from assms(3) have col: "collect (cached_stat e fuel LastAction) (get_children e n) (initialize_children e n s)
           = Returned (map DictV ds, s1)" by (simp add: get_last_action_def)
  from assms(4) show ?thesis
  proof
    assume miss: "cache s (make_key e ik LAST_ACTION) = None"
    from py_max_first_max[of "p_get_last_action e n" ds] obtain r where
      r: "py_max mtime_key (DictV (p_get_last_action e n)) (map DictV ds) = Returned (DictV r)"
      and m: "is_first_max action_key r (p_get_last_action e n # ds)" by blast
    from miss assms(1) sc col r
    have "\<exists>s'. get_last_action e (Suc fuel) n s = Returned (DictV r, s')"
      by (simp add: get_last_action_def getfromcache_def max_body_def del: py_max.simps)
    with m show ?thesis by blast
  next
    assume "\<exists>c. cache s (make_key e ik LAST_ACTION) = Some (DictV c)
                \<and> is_first_max action_key c (p_get_last_action e n # ds)"
    then obtain c where "cache s (make_key e ik LAST_ACTION) = Some (DictV c)"
      and m: "is_first_max action_key c (p_get_last_action e n # ds)" by blast
    with assms(1) have "get_last_action e (Suc fuel) n s = Returned (DictV c, s)"
      by (simp add: get_last_action_def getfromcache_def)
    with m show ?thesis by blast
  qed
qed

theorem get_last_action_first_max_witness:
  "get_cachekey max_env 0 = Some ''A'' \<and> memo_ok max_env init_state
   \<and> (\<exists>s1. collect (get_last_action max_env 1) (get_children max_env 0)
              (initialize_children max_env 0 init_state)
            = Returned (map DictV [action_at 1 3, action_at 2 9], s1))
   \<and> cache init_state (make_key max_env ''A'' LAST_ACTION) = None
   \<and> p_get_last_action max_env 0 = action_at 0 5
   \<and> (\<exists>r s'. get_last_action max_env 2 0 init_state = Returned (DictV r, s')
         \<and> is_first_max action_key r [action_at 0 5, action_at 1 3, action_at 2 9])
   \<and> value_of (get_last_action max_env 2 0 init_state) = Returned (DictV (action_at 2 9))"
proof -
  have h1: "get_cachekey max_env 0 = Some ''A''" by simp
  have h2: "memo_ok max_env init_state"
    by (simp add: memo_ok_def init_state_def init_treeitem_def)
  have "case collect (get_last_action max_env 1) (get_children max_env 0)
              (initialize_children max_env 0 init_state) of
          Returned (vs, s1) \<Rightarrow> vs = map DictV [action_at 1 3, action_at 2 9]
        | Raised x \<Rightarrow> False | Timeout \<Rightarrow> False"
    by (simp add: eval_defs action_at_def empty_dict_def)
  then have "\<exists>s1. collect (get_last_action max_env 1) (get_children max_env 0)
              (initialize_children max_env 0 init_state)
            = Returned (map DictV [action_at 1 3, action_at 2 9], s1)"
    by (rule returned_first)
  then obtain s1 where h3: "collect (get_last_action max_env 1) (get_children max_env 0)
              (initialize_children max_env 0 init_state)
            = Returned (map DictV [action_at 1 3, action_at 2 9], s1)" ..
  have h4: "cache init_state (make_key max_env ''A'' LAST_ACTION) = None"
    by (simp add: init_state_def)
  have h5: "p_get_last_action max_env 0 = action_at 0 5" by simp
  have v: "value_of (get_last_action max_env 2 0 init_state) = Returned (DictV (action_at 2 9))"
    by (simp add: value_of_def eval_nat_numeral eval_defs action_at_def empty_dict_def)
  from get_last_action_first_max[OF h1 h2 h3] h4 h5
  have "\<exists>r s'. get_last_action max_env 2 0 init_state = Returned (DictV r, s')
         \<and> is_first_max action_key r [action_at 0 5, action_at 1 3, action_at 2 9]"
    by (simp add: eval_nat_numeral)
  with h1 h2 h3 h4 h5 v show ?thesis by blast
qed

text \<open>
  Claim C7 as stated fails for a negative \<^verbatim>\<open>mtime\<close>: a record without \<^verbatim>\<open>mtime\<close> has
  key 0, not the least possible key. Node 1 has the own record with \<^verbatim>\<open>mtime\<close> -5 and the
  child 2, whose record has no \<^verbatim>\<open>mtime\<close>; \<^verbatim>\<open>get_last_action\<close> on node 1 returns the
  child's record.
\<close>

theorem get_last_action_undated_beats_negative:
  "d_mtime (p_get_last_action undated_env 1) = Some (- 5)
   \<and> d_mtime (p_get_last_action undated_env 2) = None
   \<and> value_of (get_last_action undated_env 1 2 init_state) = Returned (DictV (p_get_last_action undated_env 2))
   \<and> value_of (get_last_action undated_env 2 1 init_state) = Returned (DictV (p_get_last_action undated_env 2))"
  by (simp add: value_of_def eval_nat_numeral eval_defs action_at_def empty_dict_def)

section \<open>Recomputation and coherence: lemmas\<close>

























lemma memo_ok_flagged [simp]:
  "memo_ok e (s\<lparr>items := (items s)(n := (items s n)\<lparr>flagged_for_deletion := x\<rparr>)\<rparr>) = memo_ok e s"
  by (auto simp: memo_ok_def)
























section \<open>Claim on \<^verbatim>\<open>refresh_stats\<close> and stale entries\<close>




end
